theory Spec2Isabelle
  imports Complex_Main "HOL-Library.Word" "HOL-Library.Sublist"
begin

section \<open>The chat relay handler of \<^verbatim>\<open>api/chat.js\<close>\<close>

text \<open>
  The repository is one serverless function. It validates a chat-completion request,
  forwards it to the inference provider, and either relays the provider's stream or, for
  a buffered reply, extracts "reflections" from the reply text with two regular
  expressions, writes them to a key-value store and hands the turn to a memory service.

  The development has three layers: the regular expressions (a backtracking matcher
  with the priority order of ECMAScript, so that the two patterns are data read off the
  source), the text decoder of the streaming branch, and the handler itself, as a
  function from the environment, the collaborators' behaviour and the request to the
  response and the list of outbound calls.
\<close>

subsection \<open>Strings and character classes\<close>

text \<open>
  A JavaScript string is modelled as a \<^typ>\<open>string\<close>: the code units below 256. The
  white space of \<^verbatim>\<open>\s\<close> and of \<^verbatim>\<open>trim()\<close> in that range is TAB, LF, VT, FF, CR, SPACE
  and NBSP. Under the \<^verbatim>\<open>i\<close> flag (without \<^verbatim>\<open>u\<close>) two characters match when their
  upper-case forms agree; a character outside ASCII never canonicalises to an ASCII
  one, and the patterns hold ASCII only, so \<open>canonicalize\<close> folds a-z and leaves the rest.
\<close>

definition is_space :: "char \<Rightarrow> bool" where
  "is_space c = (of_char c \<in> {9, 10, 11, 12, 13, 32, 160 :: nat})"

definition is_digit :: "char \<Rightarrow> bool" where
  "is_digit c = (48 \<le> (of_char c :: nat) \<and> (of_char c :: nat) \<le> 57)"

definition is_lower :: "char \<Rightarrow> bool" where
  "is_lower c = (97 \<le> (of_char c :: nat) \<and> (of_char c :: nat) \<le> 122)"

fun canonicalize :: "char \<Rightarrow> char" where
  "canonicalize (Char b0 b1 b2 b3 b4 b5 b6 b7) =
     (if is_lower (Char b0 b1 b2 b3 b4 b5 b6 b7) then Char b0 b1 b2 b3 b4 False b6 b7
      else Char b0 b1 b2 b3 b4 b5 b6 b7)"

definition trim :: "string \<Rightarrow> string" where
  "trim s = rev (dropWhile is_space (rev (dropWhile is_space s)))"

subsection \<open>Regular expressions: a backtracking matcher\<close>

text \<open>
  The fragment of the pattern language the two literals use. A match state is the rest
  of the input with the value of capture group 1 (both patterns have one group). The
  matcher returns the states in which a pattern can end, in the order in which the
  backtracking engine of ECMAScript tries them: a greedy star prefers one more
  iteration, a lazy star prefers to stop, an alternative prefers its left branch, and
  a lookahead keeps only its first success. An iteration of a star that consumes
  nothing is rejected, as in the language's RepeatMatcher.
\<close>

datatype regex =
    Eps
  | Lit char
  | Space
  | Digit
  | AnyChar
  | Seq regex regex
  | Alt regex regex
  | Star regex
  | Lazy regex
  | Group regex
  | Ahead regex
  | Eof

type_synonym mstate = "string \<times> string option"

fun one_char :: "(char \<Rightarrow> bool) \<Rightarrow> mstate \<Rightarrow> mstate list" where
  "one_char P ([], cap) = []"
| "one_char P (x # xs, cap) = (if P x then [(xs, cap)] else [])"

definition same_char :: "bool \<Rightarrow> char \<Rightarrow> char \<Rightarrow> bool" where
  "same_char ic a x = (if ic then canonicalize x = canonicalize a else x = a)"

fun matcher :: "bool \<Rightarrow> regex \<Rightarrow> mstate \<Rightarrow> mstate list" where
  "matcher ic Eps st = [st]"
| "matcher ic (Lit a) st = one_char (same_char ic a) st"
| "matcher ic Space st = one_char is_space st"
| "matcher ic Digit st = one_char is_digit st"
| "matcher ic AnyChar st = one_char (\<lambda>x. True) st"
| "matcher ic (Seq r1 r2) st = concat (map (matcher ic r2) (matcher ic r1 st))"
| "matcher ic (Alt r1 r2) st = matcher ic r1 st @ matcher ic r2 st"
| "matcher ic (Star r) st =
     concat (map (\<lambda>st'. if length (fst st') < length (fst st)
                         then matcher ic (Star r) st' else [])
                 (matcher ic r st)) @ [st]"
| "matcher ic (Lazy r) st =
     st # concat (map (\<lambda>st'. if length (fst st') < length (fst st)
                              then matcher ic (Lazy r) st' else [])
                      (matcher ic r st))"
| "matcher ic (Group r) st =
     map (\<lambda>st'. (fst st', Some (take (length (fst st) - length (fst st')) (fst st))))
         (matcher ic r st)"
| "matcher ic (Ahead r) st =
     (case matcher ic r st of [] \<Rightarrow> [] | st' # _ \<Rightarrow> [(fst st, snd st')])"
| "matcher ic Eof st = (if fst st = [] then [st] else [])"

text \<open>
  The two star equations call the matcher on the same pattern again; they are unfolded
  by hand, one iteration at a time.
\<close>

lemmas matcher_Star = matcher.simps(8)

lemmas matcher_Lazy = matcher.simps(9)

declare matcher.simps(8) [simp del]

declare matcher.simps(9) [simp del]

text \<open>\<^verbatim>\<open>r+\<close> is \<^verbatim>\<open>r\<close> followed by \<^verbatim>\<open>r*\<close>; a pattern is a sequence of terms.\<close>

definition Plus :: "regex \<Rightarrow> regex" where
  "Plus r = Seq r (Star r)"

definition seqs :: "regex list \<Rightarrow> regex" where
  "seqs ts = foldr Seq ts Eps"

definition word :: "string \<Rightarrow> regex list" where
  "word w = map Lit w"

text \<open>
  \<^verbatim>\<open>RegExp.prototype.exec\<close> on a global pattern: starting at \<open>lastIndex\<close>, the first
  index at which the pattern matches, with the state the engine reaches first there.
  The result has the matched text \<^verbatim>\<open>match[0]\<close>, the group \<^verbatim>\<open>match[1]\<close> (undefined
  is \<open>None\<close>) and the new \<open>lastIndex\<close>; \<open>None\<close> is the \<^verbatim>\<open>null\<close> of a failed search.
\<close>

record match_result =
  match0 :: string
  match1 :: "string option"
  lastIndex :: nat

function exec :: "bool \<Rightarrow> regex \<Rightarrow> string \<Rightarrow> nat \<Rightarrow> match_result option" where
  "exec ic r s i =
     (if length s < i then None
      else (case matcher ic r (drop i s, None) of
              [] \<Rightarrow> exec ic r s (Suc i)
            | st # _ \<Rightarrow>
                Some \<lparr>match0 = take (length s - i - length (fst st)) (drop i s),
                      match1 = snd st,
                      lastIndex = length s - length (fst st)\<rparr>))"
  by pat_completeness auto
termination
  by (relation "measure (\<lambda>(ic, r, s, i). Suc (length s) - i)") auto

declare exec.simps [simp del]

subsection \<open>The reflection extractor\<close>

text \<open>
  An exception is a value: a \<^verbatim>\<open>TypeError\<close> of the language, or the rejection of a
  collaborator's call, each with its message.
\<close>

datatype exn = TypeError string | Rejected string

record reflection =
  type :: string
  content :: string

text \<open>
  The two pattern literals of \<^verbatim>\<open>parseReflectionsFromAIOutput\<close>, both with the flags
  \<^verbatim>\<open>gi\<close>:
  \<^verbatim>\<open>/DETAILED REFLECTION\s*\d+\s*:([\s\S]*?)(?=DETAILED REFLECTION\s*\d+\s*:|Reflection:|####|$)/gi\<close>
  and \<^verbatim>\<open>/Reflection:([\s\S]*?)(?=####|$)/gi\<close>.
\<close>

definition label_terms :: "regex list" where
  "label_terms = word ''DETAILED REFLECTION'' @ [Star Space, Plus Digit, Star Space, Lit CHR '':'']"

definition detailedReflectionRegex :: regex where
  "detailedReflectionRegex =
     seqs (label_terms @
       [Group (Lazy AnyChar),
        Ahead (Alt (seqs label_terms)
              (Alt (seqs (word ''Reflection:''))
              (Alt (seqs (word ''####'')) Eof)))])"

definition briefReflectionRegex :: regex where
  "briefReflectionRegex =
     seqs (word ''Reflection:'' @
       [Group (Lazy AnyChar), Ahead (Alt (seqs (word ''####'')) Eof)])"

text \<open>
  A match never grows the rest of the input, and a pattern that begins with a literal
  consumes at least one character: the loop over the detailed pattern moves on.
\<close>

lemma one_char_shrinks: "st' \<in> set (one_char P st) \<Longrightarrow> length (fst st') < length (fst st)"
  by (cases "(P, st)" rule: one_char.cases) (auto split: if_splits)

lemma matcher_shrinks:
  "st' \<in> set (matcher ic r st) \<Longrightarrow> length (fst st') \<le> length (fst st)"
proof (induction ic r st arbitrary: st' rule: matcher.induct)
  case (1 ic st) then show ?case by simp
next
  case (2 ic a st)
  then have "st' \<in> set (one_char (same_char ic a) st)" by simp
  from one_char_shrinks[OF this] show ?case by simp
next
  case (3 ic st)
  then have "st' \<in> set (one_char is_space st)" by simp
  from one_char_shrinks[OF this] show ?case by simp
next
  case (4 ic st)
  then have "st' \<in> set (one_char is_digit st)" by simp
  from one_char_shrinks[OF this] show ?case by simp
next
  case (5 ic st)
  then have "st' \<in> set (one_char (\<lambda>x. True) st)" by simp
  from one_char_shrinks[OF this] show ?case by simp
next
  case (6 ic r1 r2 st)
  from "6.prems" obtain m where m: "m \<in> set (matcher ic r1 st)" "st' \<in> set (matcher ic r2 m)"
    by auto
  from "6.IH"(1)[OF m(1)] "6.IH"(2)[OF m(1) m(2)] show ?case by simp
next
  case (7 ic r1 r2 st)
  from "7.prems" have "st' \<in> set (matcher ic r1 st) \<or> st' \<in> set (matcher ic r2 st)" by simp
  then show ?case
  proof
    assume "st' \<in> set (matcher ic r1 st)" then show ?thesis by (rule "7.IH"(1))
  next
    assume "st' \<in> set (matcher ic r2 st)" then show ?thesis by (rule "7.IH"(2))
  qed
next
  case (8 ic r st)
  from "8.prems" consider "st' = st"
    | m where "m \<in> set (matcher ic r st)" "length (fst m) < length (fst st)"
        "st' \<in> set (matcher ic (Star r) m)"
    by (subst (asm) matcher_Star) (auto split: if_splits)
  then show ?case
  proof cases
    case 1 then show ?thesis by simp
  next
    case 2
    from "8.IH"(2)[OF 2(1) 2(2) 2(3)] 2(2) show ?thesis by simp
  qed
next
  case (9 ic r st)
  from "9.prems" consider "st' = st"
    | m where "m \<in> set (matcher ic r st)" "length (fst m) < length (fst st)"
        "st' \<in> set (matcher ic (Lazy r) m)"
    by (subst (asm) matcher_Lazy) (auto split: if_splits)
  then show ?case
  proof cases
    case 1 then show ?thesis by simp
  next
    case 2
    from "9.IH"(2)[OF 2(1) 2(2) 2(3)] 2(2) show ?thesis by simp
  qed
next
  case (10 ic r st)
  from "10.prems" obtain m where "m \<in> set (matcher ic r st)" "fst st' = fst m" by auto
  with "10.IH" show ?case by simp
next
  case (11 ic r st) then show ?case by (auto split: list.splits)
next
  case (12 ic st) then show ?case by (auto split: if_splits)
qed

lemma seqs_Nil: "matcher ic (seqs []) st = [st]"
  by (simp add: seqs_def)

lemma seqs_Cons:
  "matcher ic (seqs (t # ts)) st = concat (map (matcher ic (seqs ts)) (matcher ic t st))"
  by (simp add: seqs_def)

lemma concat_map_concat:
  "concat (map f (concat (map g xs))) = concat (map (\<lambda>x. concat (map f (g x))) xs)"
  by (induction xs) auto

lemma seqs_Seq: "matcher ic (seqs (Seq a b # ts)) st = matcher ic (seqs (a # b # ts)) st"
proof -
  have "matcher ic (seqs (b # ts)) = (\<lambda>x. concat (map (matcher ic (seqs ts)) (matcher ic b x)))"
    by (rule ext) (simp add: seqs_Cons)
  then show ?thesis
    by (simp add: seqs_Cons concat_map_concat)
qed

lemma seqs_Lit_first:
  assumes "st' \<in> set (matcher ic (seqs (Lit a # ts)) st)"
  shows "length (fst st') < length (fst st)"
proof -
  from assms obtain m where m: "m \<in> set (one_char (same_char ic a) st)"
      "st' \<in> set (matcher ic (seqs ts) m)"
    by (auto simp: seqs_Cons)
  from one_char_shrinks[OF m(1)] matcher_shrinks[OF m(2)] show ?thesis by simp
qed

lemma exec_Some:
  "exec ic r s i = Some m \<Longrightarrow>
     \<exists>j st rest. i \<le> j \<and> j \<le> length s \<and> matcher ic r (drop j s, None) = st # rest \<and>
       lastIndex m = length s - length (fst st)"
proof (induction ic r s i rule: exec.induct)
  case (1 ic r s i)
  show ?case
  proof (cases "length s < i")
    case True with "1.prems" show ?thesis by (subst (asm) exec.simps) simp
  next
    case False
    show ?thesis
    proof (cases "matcher ic r (drop i s, None)")
      case Nil
      with False "1.prems" have "exec ic r s (Suc i) = Some m" by (subst (asm) exec.simps) simp
      from "1.IH"[OF False Nil this] obtain j st rest where
        "Suc i \<le> j" "j \<le> length s" "matcher ic r (drop j s, None) = st # rest"
        "lastIndex m = length s - length (fst st)" by blast
      then show ?thesis by (intro exI[of _ j] exI[of _ st] exI[of _ rest]) simp
    next
      case (Cons st rest)
      with False "1.prems" have "lastIndex m = length s - length (fst st)"
        by (subst (asm) exec.simps) auto
      with False Cons show ?thesis
        by (intro exI[of _ i] exI[of _ st] exI[of _ rest]) auto
    qed
  qed
qed

lemma detailed_progress:
  assumes "exec True detailedReflectionRegex s i = Some m"
  shows "i < lastIndex m \<and> lastIndex m \<le> length s"
proof -
  from exec_Some[OF assms] obtain j st rest where j: "i \<le> j" "j \<le> length s"
    "matcher True detailedReflectionRegex (drop j s, None) = st # rest"
    "lastIndex m = length s - length (fst st)" by blast
  have "\<exists>ts. detailedReflectionRegex = seqs (Lit CHR ''D'' # ts)"
    by (simp add: detailedReflectionRegex_def label_terms_def word_def) (rule exI, rule refl)
  then obtain ts where "detailedReflectionRegex = seqs (Lit CHR ''D'' # ts)" ..
  with j(3) have "st \<in> set (matcher True (seqs (Lit CHR ''D'' # ts)) (drop j s, None))" by simp
  from seqs_Lit_first[OF this] have "length (fst st) < length s - j" by simp
  with j show ?thesis by simp
qed

text \<open>
  The \<^verbatim>\<open>while\<close> loop of lines 27-29: \<^verbatim>\<open>exec\<close> from \<open>lastIndex\<close>, one entry pushed per
  match, until \<^verbatim>\<open>exec\<close> returns \<^verbatim>\<open>null\<close>. \<^verbatim>\<open>match[0].split(':')[0]\<close> is the
  text before the first colon; \<^verbatim>\<open>.trim()\<close> on an undefined group would throw.
\<close>

function detailed_loop :: "string \<Rightarrow> nat \<Rightarrow> reflection list \<Rightarrow> exn + reflection list" where
  "detailed_loop aiOutput i reflections =
     (case exec True detailedReflectionRegex aiOutput i of
        None \<Rightarrow> Inr reflections
      | Some m \<Rightarrow>
          (case match1 m of
             None \<Rightarrow> Inl (TypeError ''Cannot read properties of undefined (reading 'trim')'')
           | Some g \<Rightarrow>
               detailed_loop aiOutput (lastIndex m)
                 (reflections @
                    [\<lparr>type = trim (takeWhile (\<lambda>c. c \<noteq> CHR '':'') (match0 m)),
                      content = trim g\<rparr>])))"
  by pat_completeness auto
termination
proof (relation "measure (\<lambda>(s, i, acc). Suc (length s) - i)")
  show "wf (measure (\<lambda>(s, i, acc). Suc (length s) - i))" by simp
next
  fix aiOutput :: string and i :: nat and reflections :: "reflection list" and m g
  assume "exec True detailedReflectionRegex aiOutput i = Some m"
  from detailed_progress[OF this]
  have "Suc (length aiOutput) - lastIndex m < Suc (length aiOutput) - i" by arith
  then show "((aiOutput, lastIndex m, reflections @
            [\<lparr>type = trim (takeWhile (\<lambda>c. c \<noteq> CHR '':'') (match0 m)), content = trim g\<rparr>]),
         (aiOutput, i, reflections)) \<in> measure (\<lambda>(s, i, acc). Suc (length s) - i)"
    by simp
qed

declare detailed_loop.simps [simp del]

definition parseReflectionsFromAIOutput :: "string \<Rightarrow> exn + reflection list" where
  "parseReflectionsFromAIOutput aiOutput =
     (case detailed_loop aiOutput 0 [] of
        Inl e \<Rightarrow> Inl e
      | Inr reflections \<Rightarrow>
          (case exec True briefReflectionRegex aiOutput 0 of
             None \<Rightarrow> Inr reflections
           | Some m \<Rightarrow>
               (case match1 m of
                  None \<Rightarrow> Inl (TypeError ''Cannot read properties of undefined (reading 'trim')'')
                | Some g \<Rightarrow>
                    Inr (reflections @ [\<lparr>type = ''BRIEF REFLECTION'', content = trim g\<rparr>]))))"


subsection \<open>Describing the matches\<close>

fun starts_with :: "bool \<Rightarrow> string \<Rightarrow> string \<Rightarrow> bool" where
  "starts_with ic [] s = True"
| "starts_with ic (a # w) [] = False"
| "starts_with ic (a # w) (x # s) = (same_char ic a x \<and> starts_with ic w s)"

definition after_label :: "string \<Rightarrow> string option" where
  "after_label s =
     (if starts_with True ''DETAILED REFLECTION'' s then
        (let s1 = dropWhile is_space (drop 19 s);
             s2 = dropWhile is_digit s1;
             s3 = dropWhile is_space s2
         in if s2 \<noteq> s1 \<and> s3 \<noteq> [] \<and> hd s3 = CHR '':'' then Some (tl s3) else None)
      else None)"

fun find_first :: "(string \<Rightarrow> bool) \<Rightarrow> string \<Rightarrow> string option" where
  "find_first P [] = (if P [] then Some [] else None)"
| "find_first P (x # xs) = (if P (x # xs) then Some (x # xs) else find_first P xs)"

fun until :: "(string \<Rightarrow> bool) \<Rightarrow> string \<Rightarrow> string" where
  "until P [] = []"
| "until P (x # xs) = (if P (x # xs) then [] else x # until P xs)"

lemma seqs_Lit:
  "matcher ic (seqs (Lit a # ts)) (s, c) =
     (case s of [] \<Rightarrow> [] | x # xs \<Rightarrow> if same_char ic a x then matcher ic (seqs ts) (xs, c) else [])"
  by (cases s) (simp_all add: seqs_Cons)

lemma seqs_word:
  "matcher ic (seqs (word w @ ts)) (s, c) =
     (if starts_with ic w s then matcher ic (seqs ts) (drop (length w) s, c) else [])"
proof (induction w arbitrary: s)
  case Nil
  show ?case by (simp add: word_def)
next
  case (Cons a w)
  have IH: "\<And>s. matcher ic (seqs (map Lit w @ ts)) (s, c) =
     (if starts_with ic w s then matcher ic (seqs ts) (drop (length w) s, c) else [])"
    using Cons.IH by (simp add: word_def)
  show ?case
    by (cases s) (simp_all add: word_def seqs_Lit IH)
qed

lemma Star_Space_Nil: "matcher ic (Star Space) ([], c) = [([], c)]"
  by (subst matcher_Star) simp

lemma Star_Space_Cons:
  "matcher ic (Star Space) (x # xs, c) =
     (if is_space x then matcher ic (Star Space) (xs, c) @ [(x # xs, c)] else [(x # xs, c)])"
  by (subst matcher_Star) simp

lemma Star_Digit_Nil: "matcher ic (Star Digit) ([], c) = [([], c)]"
  by (subst matcher_Star) simp

lemma Star_Digit_Cons:
  "matcher ic (Star Digit) (x # xs, c) =
     (if is_digit x then matcher ic (Star Digit) (xs, c) @ [(x # xs, c)] else [(x # xs, c)])"
  by (subst matcher_Star) simp

lemma seqs_Star_Space:
  assumes rej: "\<And>x xs c. is_space x \<Longrightarrow> matcher ic (seqs ts) (x # xs, c) = []"
  shows "matcher ic (seqs (Star Space # ts)) (s, c) = matcher ic (seqs ts) (dropWhile is_space s, c)"
proof (induction s)
  case Nil
  show ?case by (simp only: seqs_Cons Star_Space_Nil) simp
next
  case (Cons x xs)
  show ?case
  proof (cases "is_space x")
    case True
    have "matcher ic (seqs (Star Space # ts)) (x # xs, c) =
            matcher ic (seqs (Star Space # ts)) (xs, c) @ matcher ic (seqs ts) (x # xs, c)"
      using True by (simp only: seqs_Cons Star_Space_Cons) simp
    with True Cons rej[OF True] show ?thesis by simp
  next
    case False
    then show ?thesis by (simp only: seqs_Cons Star_Space_Cons) simp
  qed
qed

lemma seqs_Star_Digit:
  assumes rej: "\<And>x xs c. is_digit x \<Longrightarrow> matcher ic (seqs ts) (x # xs, c) = []"
  shows "matcher ic (seqs (Star Digit # ts)) (s, c) = matcher ic (seqs ts) (dropWhile is_digit s, c)"
proof (induction s)
  case Nil
  show ?case by (simp only: seqs_Cons Star_Digit_Nil) simp
next
  case (Cons x xs)
  show ?case
  proof (cases "is_digit x")
    case True
    have "matcher ic (seqs (Star Digit # ts)) (x # xs, c) =
            matcher ic (seqs (Star Digit # ts)) (xs, c) @ matcher ic (seqs ts) (x # xs, c)"
      using True by (simp only: seqs_Cons Star_Digit_Cons) simp
    with True Cons rej[OF True] show ?thesis by simp
  next
    case False
    then show ?thesis by (simp only: seqs_Cons Star_Digit_Cons) simp
  qed
qed

lemma space_not_digit: "is_space x \<Longrightarrow> \<not> is_digit x"
  by (auto simp: is_space_def is_digit_def)

lemma canonicalize_inv:
  "canonicalize x = Char c0 c1 c2 c3 c4 c5 c6 c7 \<Longrightarrow>
     x = Char c0 c1 c2 c3 c4 c5 c6 c7 \<or> (x = Char c0 c1 c2 c3 c4 True c6 c7 \<and> \<not> c5)"
  by (cases x) (auto split: if_splits)

lemma canonicalize_colon: "canonicalize x = CHR '':'' \<longleftrightarrow> x = CHR '':''"
proof
  assume "canonicalize x = CHR '':''"
  from canonicalize_inv[OF this] show "x = CHR '':''" by simp
next
  assume "x = CHR '':''"
  then show "canonicalize x = CHR '':''" by (simp add: is_lower_def)
qed

lemma canonicalize_D: "canonicalize x = CHR ''D'' \<Longrightarrow> x = CHR ''D'' \<or> x = CHR ''d''"
  by (drule canonicalize_inv) simp

lemma not_D:
  assumes "is_space x \<or> is_digit x \<or> x = CHR '':''"
  shows "\<not> same_char True CHR ''D'' x"
proof
  assume "same_char True CHR ''D'' x"
  then have "canonicalize x = CHR ''D''" by (simp add: same_char_def is_lower_def)
  from canonicalize_D[OF this] assms show False
    by (auto simp: is_space_def is_digit_def)
qed

lemma same_char_colon: "same_char True CHR '':'' x \<longleftrightarrow> x = CHR '':''"
  using canonicalize_colon[of x] canonicalize_colon[of "CHR '':''"] by (simp add: same_char_def)

lemma colon_class: "\<not> is_space CHR '':''" "\<not> is_digit CHR '':''"
  by (simp_all add: is_space_def is_digit_def)

lemma seqs_Plus_Digit:
  assumes rej: "\<And>x xs c. is_digit x \<Longrightarrow> matcher ic (seqs ts) (x # xs, c) = []"
  shows "matcher ic (seqs (Plus Digit # ts)) (s, c) =
           (if dropWhile is_digit s \<noteq> s then matcher ic (seqs ts) (dropWhile is_digit s, c) else [])"
proof -
  have "matcher ic (seqs (Plus Digit # ts)) (s, c) = matcher ic (seqs (Digit # Star Digit # ts)) (s, c)"
    by (simp only: Plus_def seqs_Seq)
  also have "\<dots> = (case s of [] \<Rightarrow> [] | x # xs \<Rightarrow>
        if is_digit x then matcher ic (seqs (Star Digit # ts)) (xs, c) else [])"
    by (cases s) (simp_all add: seqs_Cons[of ic Digit])
  also have "\<dots> = (if dropWhile is_digit s \<noteq> s then matcher ic (seqs ts) (dropWhile is_digit s, c) else [])"
  proof (cases s)
    case Nil then show ?thesis by simp
  next
    case (Cons x xs)
    have "dropWhile is_digit xs \<noteq> x # xs"
      using length_dropWhile_le[of is_digit xs] by (auto dest: arg_cong[where f = length])
    with Cons show ?thesis by (simp add: seqs_Star_Digit[OF rej])
  qed
  finally show ?thesis .
qed

lemma label_then:
  "matcher True (seqs (label_terms @ ts)) (s, c) =
     (case after_label s of None \<Rightarrow> [] | Some rest \<Rightarrow> matcher True (seqs ts) (rest, c))"
proof -
  let ?t3 = "Lit CHR '':'' # ts"
  let ?t2 = "Star Space # ?t3"
  let ?t1 = "Plus Digit # ?t2"
  have r3s: "\<And>x xs c. is_space x \<Longrightarrow> matcher True (seqs ?t3) (x # xs, c) = []"
    using colon_class by (auto simp: seqs_Lit same_char_colon)
  have r3d: "\<And>x xs c. is_digit x \<Longrightarrow> matcher True (seqs ?t3) (x # xs, c) = []"
    using colon_class by (auto simp: seqs_Lit same_char_colon)
  have r2d: "\<And>x xs c. is_digit x \<Longrightarrow> matcher True (seqs ?t2) (x # xs, c) = []"
    using space_not_digit by (subst seqs_Star_Space[OF r3s]) (auto simp: r3d)
  have r1s: "\<And>x xs c. is_space x \<Longrightarrow> matcher True (seqs ?t1) (x # xs, c) = []"
    using space_not_digit by (subst seqs_Plus_Digit[OF r2d]) auto
  have t3: "\<And>s. matcher True (seqs ?t3) (s, c) =
      (if s \<noteq> [] \<and> hd s = CHR '':'' then matcher True (seqs ts) (tl s, c) else [])"
    by (simp add: seqs_Lit same_char_colon split: list.splits)
  define s1 where "s1 = dropWhile is_space (drop 19 s)"
  define s2 where "s2 = dropWhile is_digit s1"
  define s3 where "s3 = dropWhile is_space s2"
  have e0: "label_terms @ ts = word ''DETAILED REFLECTION'' @ Star Space # ?t1"
    by (simp add: label_terms_def)
  have len: "length ''DETAILED REFLECTION'' = 19" by simp
  have a1: "matcher True (seqs (Star Space # ?t1)) (drop 19 s, c) = matcher True (seqs ?t1) (s1, c)"
    unfolding s1_def by (rule seqs_Star_Space[OF r1s])
  have a2: "matcher True (seqs ?t1) (s1, c) =
              (if s2 \<noteq> s1 then matcher True (seqs ?t2) (s2, c) else [])"
    unfolding s2_def by (rule seqs_Plus_Digit[OF r2d])
  have a3: "matcher True (seqs ?t2) (s2, c) = matcher True (seqs ?t3) (s3, c)"
    unfolding s3_def by (rule seqs_Star_Space[OF r3s])
  have "matcher True (seqs (label_terms @ ts)) (s, c) =
          (if starts_with True ''DETAILED REFLECTION'' s
           then matcher True (seqs (Star Space # ?t1)) (drop 19 s, c) else [])"
    unfolding e0 seqs_word len by (rule refl)
  also have "\<dots> = (if starts_with True ''DETAILED REFLECTION'' s
           then (if s2 \<noteq> s1 then
                   (if s3 \<noteq> [] \<and> hd s3 = CHR '':'' then matcher True (seqs ts) (tl s3, c) else [])
                 else [])
           else [])"
    unfolding a1 a2 a3 t3 by (rule refl)
  also have "\<dots> = (case after_label s of None \<Rightarrow> [] | Some rest \<Rightarrow> matcher True (seqs ts) (rest, c))"
    unfolding after_label_def Let_def s1_def[symmetric] s2_def[symmetric] s3_def[symmetric]
    by (simp del: dropWhile_eq_Nil_conv)
  finally show ?thesis .
qed

fun tails :: "string \<Rightarrow> string list" where
  "tails [] = [[]]"
| "tails (x # xs) = (x # xs) # tails xs"

lemma Lazy_AnyChar: "matcher ic (Lazy AnyChar) (s, c) = map (\<lambda>t. (t, c)) (tails s)"
proof (induction s)
  case Nil
  show ?case by (subst matcher_Lazy) simp
next
  case (Cons x xs)
  then show ?case by (subst matcher_Lazy) simp
qed

lemma Ahead_decides:
  assumes ok: "\<And>t c. (matcher ic A (t, c) \<noteq> []) = ok t"
      and cap: "\<And>t c st more. matcher ic A (t, c) = st # more \<Longrightarrow> snd st = c"
  shows "matcher ic (Ahead A) (t, c) = (if ok t then [(t, c)] else [])"
proof (cases "matcher ic A (t, c)")
  case Nil
  with ok[of t c] show ?thesis by simp
next
  case (Cons st more)
  with ok[of t c] cap[OF Cons] show ?thesis by simp
qed

lemma group_then_ahead:
  assumes ok: "\<And>t c. (matcher ic A (t, c) \<noteq> []) = ok t"
      and cap: "\<And>t c st more. matcher ic A (t, c) = st # more \<Longrightarrow> snd st = c"
  shows "matcher ic (seqs [Group (Lazy AnyChar), Ahead A]) (s, c) =
           concat (map (\<lambda>t. if ok t then [(t, Some (take (length s - length t) s))] else [])
                       (tails s))"
proof -
  have F: "\<And>t c. matcher ic (seqs [Ahead A]) (t, c) = (if ok t then [(t, c)] else [])"
    by (simp only: seqs_Cons Ahead_decides[OF ok cap]) (simp add: seqs_Nil)
  have G: "matcher ic (Group (Lazy AnyChar)) (s, c) =
             map (\<lambda>t. (t, Some (take (length s - length t) s))) (tails s)"
    by (simp only: matcher.simps(10) Lazy_AnyChar) (simp add: comp_def)
  show ?thesis
    by (simp only: seqs_Cons[of ic "Group (Lazy AnyChar)"] G) (simp add: comp_def F)
qed

lemma first_of_tails_None:
  "find_first ok s = None \<Longrightarrow> concat (map (\<lambda>t. if ok t then [g t] else []) (tails s)) = []"
  by (induction s) (auto split: if_splits)

lemma first_of_tails_Some:
  "find_first ok s = Some t \<Longrightarrow>
     \<exists>more. concat (map (\<lambda>t. if ok t then [g t] else []) (tails s)) = g t # more"
  by (induction s) (auto split: if_splits)

lemma until_prefix: "take (length (until P s)) s = until P s"
  by (induction s) auto

lemma until_length: "length (until P s) \<le> length s"
  by (induction s) auto

lemma until_find:
  "find_first (\<lambda>t. P t \<or> t = []) s = Some (drop (length (until P s)) s)"
  by (induction s) auto

lemma until_no_stop: "j < length (until P s) \<Longrightarrow> \<not> P (drop j s)"
proof (induction s arbitrary: j)
  case Nil then show ?case by simp
next
  case (Cons x xs)
  then show ?case by (cases j) (auto split: if_splits)
qed

definition stop_at :: "bool \<Rightarrow> string \<Rightarrow> bool" where
  "stop_at ic t = (after_label t \<noteq> None \<or> starts_with ic ''Reflection:'' t \<or>
                   starts_with True ''####'' t)"

lemma word_alone:
  "matcher ic (seqs (word w)) (t, c) = (if starts_with ic w t then [(drop (length w) t, c)] else [])"
  using seqs_word[of ic w "[]" t c] by (simp add: seqs_Nil)

lemma label_alone:
  "matcher True (seqs label_terms) (t, c) =
     (case after_label t of None \<Rightarrow> [] | Some rest \<Rightarrow> [(rest, c)])"
  using label_then[of "[]" t c] by (simp add: seqs_Nil cong: option.case_cong)

lemma detailed_matches:
  "matcher True detailedReflectionRegex (u, None) =
     (case after_label u of
        None \<Rightarrow> []
      | Some rest \<Rightarrow>
          concat (map (\<lambda>t. if stop_at True t \<or> t = []
                            then [(t, Some (take (length rest - length t) rest))] else [])
                      (tails rest)))"
proof -
  let ?A = "Alt (seqs label_terms) (Alt (seqs (word ''Reflection:'')) (Alt (seqs (word ''####'')) Eof))"
  have ok: "\<And>t c. (matcher True ?A (t, c) \<noteq> []) = (stop_at True t \<or> t = [])"
    by (auto simp: label_alone word_alone stop_at_def split: option.splits)
  have cap: "\<And>t c st more. matcher True ?A (t, c) = st # more \<Longrightarrow> snd st = c"
    by (auto simp: label_alone word_alone Cons_eq_append_conv split: option.splits if_splits)
  have eq: "detailedReflectionRegex = seqs (label_terms @ [Group (Lazy AnyChar), Ahead ?A])"
    by (simp add: detailedReflectionRegex_def)
  have g: "\<And>s c. matcher True (seqs [Group (Lazy AnyChar), Ahead ?A]) (s, c) =
      concat (map (\<lambda>t. if stop_at True t \<or> t = []
                       then [(t, Some (take (length s - length t) s))] else []) (tails s))"
    using ok cap by (rule group_then_ahead)
  show ?thesis
    unfolding eq label_then g by (rule refl)
qed

lemma brief_matches:
  "matcher True briefReflectionRegex (u, None) =
     (if starts_with True ''Reflection:'' u then
        concat (map (\<lambda>t. if starts_with True ''####'' t \<or> t = []
                          then [(t, Some (take (length (drop 11 u) - length t) (drop 11 u)))] else [])
                    (tails (drop 11 u)))
      else [])"
proof -
  let ?A = "Alt (seqs (word ''####'')) Eof"
  have ok: "\<And>t c. (matcher True ?A (t, c) \<noteq> []) = (starts_with True ''####'' t \<or> t = [])"
    by (auto simp: word_alone)
  have cap: "\<And>t c st more. matcher True ?A (t, c) = st # more \<Longrightarrow> snd st = c"
    by (auto simp: word_alone Cons_eq_append_conv split: if_splits)
  have len: "length ''Reflection:'' = 11" by simp
  have g: "\<And>s c. matcher True (seqs [Group (Lazy AnyChar), Ahead ?A]) (s, c) =
      concat (map (\<lambda>t. if starts_with True ''####'' t \<or> t = []
                       then [(t, Some (take (length s - length t) s))] else []) (tails s))"
    using ok cap by (rule group_then_ahead)
  show ?thesis
    unfolding briefReflectionRegex_def seqs_word g len by (rule refl)
qed

lemma exec_find:
  "(\<And>u. (matcher ic r (u, None) \<noteq> []) = P u) \<Longrightarrow> i \<le> length s \<Longrightarrow>
    exec ic r s i =
      (case find_first P (drop i s) of
         None \<Rightarrow> None
       | Some t \<Rightarrow>
           (case matcher ic r (t, None) of
              [] \<Rightarrow> None
            | st # _ \<Rightarrow> Some \<lparr>match0 = take (length t - length (fst st)) t,
                               match1 = snd st,
                               lastIndex = length s - length (fst st)\<rparr>))"
proof (induction ic r s i rule: exec.induct)
  case (1 ic r s i)
  note P = "1.prems"(1)
  show ?case
  proof (cases "i = length s")
    case True
    have past: "exec ic r s (Suc (length s)) = None" by (subst exec.simps) simp
    show ?thesis
    proof (cases "matcher ic r ([], None)")
      case Nil
      with P[of "[]"] have "\<not> P []" by simp
      with Nil True past show ?thesis by (subst exec.simps) simp
    next
      case (Cons st more)
      with P[of "[]"] have "P []" by simp
      with Cons True show ?thesis by (subst exec.simps) simp
    qed
  next
    case False
    with "1.prems"(2) have lt: "i < length s" by simp
    then have d: "drop i s = s ! i # drop (Suc i) s" by (simp add: Cons_nth_drop_Suc)
    show ?thesis
    proof (cases "matcher ic r (drop i s, None)")
      case Nil
      with P[of "drop i s"] have nP: "\<not> P (s ! i # drop (Suc i) s)" by (simp add: d)
      from lt Nil have "exec ic r s i = exec ic r s (Suc i)" by (subst exec.simps) simp
      also have "\<dots> = (case find_first P (drop (Suc i) s) of
         None \<Rightarrow> None
       | Some t \<Rightarrow>
           (case matcher ic r (t, None) of
              [] \<Rightarrow> None
            | st # _ \<Rightarrow> Some \<lparr>match0 = take (length t - length (fst st)) t,
                               match1 = snd st,
                               lastIndex = length s - length (fst st)\<rparr>))"
        using "1.IH"[OF _ Nil P] lt by simp
      finally show ?thesis using nP by (simp add: d)
    next
      case (Cons st more)
      with P[of "drop i s"] have "P (s ! i # drop (Suc i) s)" by (simp add: d)
      with Cons lt show ?thesis by (subst exec.simps) (simp add: d)
    qed
  qed
qed

subsection \<open>The sections, as the specification describes them\<close>

text \<open>
  The sections as the specification describes them: at every position of the text where
  a detailed label stands, one entry with the label text before its colon and the text
  up to the next stop; and for the first "Reflection:" label, one brief entry. The flag
  says whether "Reflection:" is read in any letter case.
\<close>

fun detailed_sections :: "bool \<Rightarrow> string \<Rightarrow> reflection list" where
  "detailed_sections ic [] = []"
| "detailed_sections ic (x # xs) =
     (case after_label (x # xs) of
        None \<Rightarrow> []
      | Some rest \<Rightarrow>
          [\<lparr>type = trim (take (length (x # xs) - length rest - 1) (x # xs)),
            content = trim (until (stop_at ic) rest)\<rparr>])
     @ detailed_sections ic xs"

definition brief_section :: "bool \<Rightarrow> string \<Rightarrow> reflection list" where
  "brief_section ic s =
     (case find_first (starts_with ic ''Reflection:'') s of
        None \<Rightarrow> []
      | Some t \<Rightarrow>
          [\<lparr>type = ''BRIEF REFLECTION'',
            content = trim (until (starts_with True ''####'') (drop 11 t))\<rparr>])"

lemma starts_with_length: "starts_with ic w s \<Longrightarrow> length w \<le> length s"
  by (induction ic w s rule: starts_with.induct) auto

lemma starts_with_take: "starts_with ic w s \<Longrightarrow> starts_with ic w (take (length w) s)"
  by (induction ic w s rule: starts_with.induct) auto

lemma starts_with_no_colon:
  "starts_with True p w \<Longrightarrow> length w = length p \<Longrightarrow>
     \<forall>a\<in>set p. canonicalize a \<noteq> CHR '':'' \<Longrightarrow> \<forall>x\<in>set w. x \<noteq> CHR '':''"
proof (induction "True" p w rule: starts_with.induct)
  case (1 s) then show ?case by simp
next
  case (2 a w) then show ?case by simp
next
  case (3 a w x s)
  from "3.prems" have "canonicalize x = canonicalize a" by (simp add: same_char_def)
  with "3.prems"(3) have "x \<noteq> CHR '':''" using canonicalize_colon[of x] by auto
  with 3 show ?case by simp
qed

lemma label_structure:
  assumes "after_label t = Some rest"
  shows "\<exists>w mid. t = w @ mid @ CHR '':'' # rest \<and> length w = 19 \<and>
           starts_with True ''DETAILED REFLECTION'' w \<and> (\<forall>x\<in>set mid. is_space x \<or> is_digit x)"
proof -
  define s0 where "s0 = drop 19 t"
  define s1 where "s1 = dropWhile is_space s0"
  define s2 where "s2 = dropWhile is_digit s1"
  define s3 where "s3 = dropWhile is_space s2"
  from assms have sw: "starts_with True ''DETAILED REFLECTION'' t"
    and s3: "s3 \<noteq> []" "hd s3 = CHR '':''" "rest = tl s3"
    by (auto simp: after_label_def Let_def s0_def s1_def s2_def s3_def split: if_splits)
  let ?w = "take 19 t"
  let ?mid = "takeWhile is_space s0 @ takeWhile is_digit s1 @ takeWhile is_space s2"
  have len19: "length ''DETAILED REFLECTION'' = 19" by simp
  from starts_with_length[OF sw] have lw: "length ?w = 19" unfolding len19 by simp
  from starts_with_take[OF sw] have sww: "starts_with True ''DETAILED REFLECTION'' ?w"
    unfolding len19 .
  have "s0 = takeWhile is_space s0 @ s1" by (simp add: s1_def)
  moreover have "s1 = takeWhile is_digit s1 @ s2" by (simp add: s2_def)
  moreover have "s2 = takeWhile is_space s2 @ s3" by (simp add: s3_def)
  moreover from s3 have "s3 = CHR '':'' # rest" by (cases s3) auto
  ultimately have "s0 = ?mid @ CHR '':'' # rest" by simp
  moreover have "t = ?w @ s0" by (simp add: s0_def)
  ultimately have "t = ?w @ ?mid @ CHR '':'' # rest" by simp
  moreover have "\<forall>x\<in>set ?mid. is_space x \<or> is_digit x"
    by (auto dest: set_takeWhileD)
  ultimately show ?thesis using lw sww by blast
qed

lemma label_text:
  assumes "after_label t = Some rest" and "length t - length rest \<le> m"
  shows "takeWhile (\<lambda>c. c \<noteq> CHR '':'') (take m t) = take (length t - length rest - 1) t"
proof -
  from label_structure[OF assms(1)] obtain w mid where
    t: "t = w @ mid @ CHR '':'' # rest" and lw: "length w = 19"
    and sw: "starts_with True ''DETAILED REFLECTION'' w"
    and mid: "\<forall>x\<in>set mid. is_space x \<or> is_digit x" by blast
  have "\<forall>a\<in>set ''DETAILED REFLECTION''. canonicalize a \<noteq> CHR '':''"
    by (simp add: is_lower_def)
  with starts_with_no_colon[OF sw] lw have w: "\<forall>x\<in>set w. x \<noteq> CHR '':''" by simp
  from mid colon_class have m: "\<forall>x\<in>set mid. x \<noteq> CHR '':''" by auto
  from w m have all: "\<forall>x\<in>set (w @ mid). x \<noteq> CHR '':''" by auto
  have len: "length t - length rest = Suc (length (w @ mid))" by (subst t) simp
  with assms(2) obtain d where d: "m = Suc (length (w @ mid)) + d"
    using le_Suc_ex by metis
  have "take m t = (w @ mid) @ CHR '':'' # take d rest"
    unfolding d by (subst t) simp
  then have "takeWhile (\<lambda>c. c \<noteq> CHR '':'') (take m t) = w @ mid"
    using all by (simp only: takeWhile_append2) simp
  moreover have "take (length t - length rest - 1) t = w @ mid"
    unfolding len by (subst t) simp
  ultimately show ?thesis by simp
qed

lemma word_no_self_overlap:
  assumes "starts_with True ''DETAILED REFLECTION'' w" "length w = 19" "0 < k" "k < 19"
  shows "\<not> starts_with True ''DETAILED REFLECTION'' (drop k w @ z)"
proof -
  from assms(2) obtain c0 c1 c2 c3 c4 c5 c6 c7 c8 c9 c10 c11 c12 c13 c14 c15 c16 c17 c18
    where w: "w = [c0, c1, c2, c3, c4, c5, c6, c7, c8, c9, c10, c11, c12, c13, c14, c15, c16, c17, c18]"
    by (auto simp: eval_nat_numeral length_Suc_conv)
  from assms(1) have c:
    "canonicalize c1 = CHR ''E''" "canonicalize c2 = CHR ''T''" "canonicalize c3 = CHR ''A''"
    "canonicalize c4 = CHR ''I''" "canonicalize c5 = CHR ''L''" "canonicalize c6 = CHR ''E''"
    "canonicalize c7 = CHR ''D''" "canonicalize c8 = CHR '' ''" "canonicalize c9 = CHR ''R''"
    "canonicalize c10 = CHR ''E''" "canonicalize c11 = CHR ''F''" "canonicalize c12 = CHR ''L''"
    "canonicalize c13 = CHR ''E''" "canonicalize c14 = CHR ''C''" "canonicalize c15 = CHR ''T''"
    "canonicalize c16 = CHR ''I''" "canonicalize c17 = CHR ''O''" "canonicalize c18 = CHR ''N''"
    by (simp_all add: w same_char_def is_lower_def)
  from assms(3,4) consider "k = 1" | "k = 2" | "k = 3" | "k = 4" | "k = 5" | "k = 6" | "k = 7"
    | "k = 8" | "k = 9" | "k = 10" | "k = 11" | "k = 12" | "k = 13" | "k = 14" | "k = 15"
    | "k = 16" | "k = 17" | "k = 18" by atomize_elim arith
  then show ?thesis
    by cases (simp_all add: w c same_char_def is_lower_def)
qed

lemma no_label_in_label:
  assumes "after_label t = Some rest" "0 < k" "k < length t - length rest"
  shows "after_label (drop k t) = None"
proof -
  from label_structure[OF assms(1)] obtain w mid where
    t: "t = w @ mid @ CHR '':'' # rest" and lw: "length w = 19"
    and sw: "starts_with True ''DETAILED REFLECTION'' w"
    and mid: "\<forall>x\<in>set mid. is_space x \<or> is_digit x" by blast
  have "\<not> starts_with True ''DETAILED REFLECTION'' (drop k t)"
  proof (cases "k < 19")
    case True
    from word_no_self_overlap[OF sw lw assms(2) True, of "mid @ CHR '':'' # rest"] True lw
    show ?thesis by (subst t) simp
  next
    case False
    define j where "j = k - 19"
    from assms(3) False have j: "j < Suc (length mid)" by (subst (asm) t) (simp add: j_def lw)
    then obtain x xs where x: "drop j (mid @ [CHR '':'']) = x # xs"
      by (cases "drop j (mid @ [CHR '':''])") auto
    then have "x \<in> set (mid @ [CHR '':''])" by (metis in_set_dropD list.set_intros(1))
    with mid have "is_space x \<or> is_digit x \<or> x = CHR '':''" by auto
    from not_D[OF this] have nd: "\<not> same_char True CHR ''D'' x" .
    from False have "drop k t = drop j (mid @ [CHR '':'']) @ rest"
      using j by (subst t) (simp add: j_def lw)
    with x nd show ?thesis by simp
  qed
  then show ?thesis by (simp add: after_label_def)
qed


lemma after_label_shorter:
  assumes "after_label t = Some rest"
  shows "length rest < length t" "suffix rest t"
proof -
  from label_structure[OF assms] obtain w mid where t: "t = w @ mid @ CHR '':'' # rest" by blast
  show "length rest < length t" by (subst t) simp
  have "t = (w @ mid @ [CHR '':'']) @ rest" by (subst t) simp
  then show "suffix rest t" unfolding suffix_def by blast
qed

lemma suffix_drop_length: "suffix t s \<Longrightarrow> drop (length s - length t) s = t"
  by (auto simp: suffix_def)

lemma find_first_suffix: "find_first P s = Some t \<Longrightarrow> suffix t s \<and> P t"
proof (induction s)
  case Nil then show ?case by (auto split: if_splits)
next
  case (Cons x xs)
  then show ?case by (auto split: if_splits simp: suffix_Cons)
qed

lemma sections_none:
  "find_first (\<lambda>u. after_label u \<noteq> None) u = None \<Longrightarrow> detailed_sections ic u = []"
  by (induction u) (auto split: if_splits)

lemma sections_find:
  "find_first (\<lambda>u. after_label u \<noteq> None) u = Some t \<Longrightarrow>
     detailed_sections ic u = detailed_sections ic t"
  by (induction u) (auto split: if_splits)

lemma sections_skip:
  "suffix t2 v \<Longrightarrow> (\<forall>k < length v - length t2. after_label (drop k v) = None) \<Longrightarrow>
     detailed_sections ic v = detailed_sections ic t2"
proof (induction v)
  case Nil then show ?case by simp
next
  case (Cons y ys)
  show ?case
  proof (cases "t2 = y # ys")
    case True then show ?thesis by simp
  next
    case False
    with Cons.prems(1) have suf: "suffix t2 ys" by (simp add: suffix_Cons)
    then have le: "length t2 \<le> length ys" by (rule suffix_length_le)
    from Cons.prems(2)[rule_format, of 0] le have none: "after_label (y # ys) = None" by simp
    have "\<forall>k < length ys - length t2. after_label (drop k ys) = None"
    proof (intro allI impI)
      fix k assume "k < length ys - length t2"
      with le have "Suc k < length (y # ys) - length t2" by simp
      from Cons.prems(2)[rule_format, OF this] show "after_label (drop k ys) = None" by simp
    qed
    from Cons.IH[OF suf this] none show ?thesis by simp
  qed
qed

lemma first_stop:
  "\<exists>more. concat (map (\<lambda>t. if P t \<or> t = []
                             then [(t, Some (take (length r - length t) r))] else [])
                        (tails r)) =
          (drop (length (until P r)) r, Some (until P r)) # more"
proof -
  let ?g = "\<lambda>t. (t, Some (take (length r - length t) r))"
  let ?n = "length (until P r)"
  from first_of_tails_Some[OF until_find[of P r], of ?g] obtain more where
    eq: "concat (map (\<lambda>t. if P t \<or> t = [] then [?g t] else []) (tails r)) = ?g (drop ?n r) # more"
    by blast
  have g: "?g (drop ?n r) = (drop ?n r, Some (until P r))"
    using until_length[of P r] until_prefix[of P r] by simp
  show ?thesis unfolding eq g by blast
qed

lemma detailed_first:
  assumes "after_label t = Some rest"
  shows "\<exists>more. matcher True detailedReflectionRegex (t, None) =
           (drop (length (until (stop_at True) rest)) rest, Some (until (stop_at True) rest)) # more"
  unfolding detailed_matches assms option.case by (rule first_stop)

lemma detailed_found:
  "(matcher True detailedReflectionRegex (u, None) \<noteq> []) = (after_label u \<noteq> None)"
proof (cases "after_label u")
  case None then show ?thesis by (simp add: detailed_matches)
next
  case (Some rest)
  from detailed_first[OF Some] show ?thesis by (auto simp: Some)
qed

lemma detailed_loop_sections:
  "i \<le> length s \<Longrightarrow>
     detailed_loop s i acc = Inr (acc @ detailed_sections True (drop i s))"
proof (induction s i acc rule: detailed_loop.induct)
  case (1 s i acc)
  let ?P = "\<lambda>u. after_label u \<noteq> None"
  note ex = exec_find[of True detailedReflectionRegex ?P, OF detailed_found "1.prems"]
  show ?case
  proof (cases "find_first ?P (drop i s)")
    case None
    with ex have "exec True detailedReflectionRegex s i = None" by simp
    with sections_none[OF None] show ?thesis by (subst detailed_loop.simps) simp
  next
    case (Some t)
    from find_first_suffix[OF Some] have suf: "suffix t (drop i s)" and lab: "after_label t \<noteq> None"
      by simp_all
    from lab obtain rest where rest: "after_label t = Some rest" by auto
    define body where "body = until (stop_at True) rest"
    define t2 where "t2 = drop (length body) rest"
    define e where "e = length s - length t2"
    define entry where "entry = \<lparr>type = trim (take (length t - length rest - 1) t),
                                 content = trim body\<rparr>"
    from detailed_first[OF rest] obtain more where
      m: "matcher True detailedReflectionRegex (t, None) = (t2, Some body) # more"
      unfolding body_def t2_def by blast
    from after_label_shorter[OF rest] have rlt: "length rest < length t" and rsuf: "suffix rest t"
      by simp_all
    have t2suf: "suffix t2 rest" unfolding t2_def by (rule suffix_drop)
    from suf have ts: "suffix t s" by (meson suffix_drop suffix_order.trans)
    from t2suf rsuf ts have t2s: "suffix t2 s" by (meson suffix_order.trans)
    have t2len: "length t2 \<le> length rest" using t2suf by (rule suffix_length_le)
    have exm: "exec True detailedReflectionRegex s i =
                 Some \<lparr>match0 = take (length t - length t2) t, match1 = Some body, lastIndex = e\<rparr>"
      using ex Some m by (simp add: e_def)
    have ty: "takeWhile (\<lambda>c. c \<noteq> CHR '':'') (take (length t - length t2) t) =
                take (length t - length rest - 1) t"
      by (rule label_text[OF rest]) (use t2len in simp)
    have ele: "e \<le> length s" by (simp add: e_def)
    have step: "detailed_loop s i acc = detailed_loop s e (acc @ [entry])"
      by (subst detailed_loop.simps) (simp add: exm ty entry_def)
    have IH: "detailed_loop s e (acc @ [entry]) =
                Inr ((acc @ [entry]) @ detailed_sections True (drop e s))"
      using "1.IH"[OF exm, of body] ele by (simp add: ty entry_def)
    have de: "drop e s = t2" unfolding e_def by (rule suffix_drop_length[OF t2s])
    obtain x t' where t: "t = x # t'" using rlt by (cases t) auto
    have "t2 \<noteq> t" using t2len rlt by auto
    moreover from t2suf rsuf have "suffix t2 t" by (meson suffix_order.trans)
    ultimately have t2t': "suffix t2 t'" by (simp add: t suffix_Cons)
    have inner: "\<forall>k < length t' - length t2. after_label (drop k t') = None"
    proof (intro allI impI)
      fix k assume k: "k < length t' - length t2"
      show "after_label (drop k t') = None"
      proof (cases "Suc k < length t - length rest")
        case True
        from no_label_in_label[OF rest _ True] show ?thesis by (simp add: t)
      next
        case False
        define L where "L = length t - length rest"
        define j where "j = Suc k - L"
        have dr: "drop L t = rest" unfolding L_def by (rule suffix_drop_length[OF rsuf])
        have sk: "Suc k = j + L" using False by (simp add: j_def L_def)
        have "drop k t' = drop (Suc k) t" by (simp add: t)
        also have "\<dots> = drop j (drop L t)" unfolding sk by (simp only: drop_drop)
        also have "\<dots> = drop j rest" by (simp only: dr)
        finally have dj: "drop k t' = drop j rest" .
        have "length t2 = length rest - length body" by (simp add: t2_def)
        with k False rlt have "j < length body"
          using until_length[of "stop_at True" rest] by (simp add: j_def L_def t body_def)
        then have "\<not> stop_at True (drop j rest)" unfolding body_def by (rule until_no_stop)
        then show ?thesis by (simp add: dj stop_at_def)
      qed
    qed
    from sections_skip[OF t2t' inner] have skip: "detailed_sections True t' = detailed_sections True t2" .
    have "detailed_sections True (drop i s) = detailed_sections True t"
      by (rule sections_find[OF Some])
    also have "\<dots> = entry # detailed_sections True t'"
      using rest by (simp add: t entry_def body_def)
    finally show ?thesis using step IH de skip by simp
  qed
qed

lemma brief_first:
  assumes "starts_with True ''Reflection:'' t"
  shows "\<exists>more. matcher True briefReflectionRegex (t, None) =
           (drop (length (until (starts_with True ''####'') (drop 11 t))) (drop 11 t),
            Some (until (starts_with True ''####'') (drop 11 t))) # more"
proof -
  have "matcher True briefReflectionRegex (t, None) =
     concat (map (\<lambda>u. if starts_with True ''####'' u \<or> u = []
                       then [(u, Some (take (length (drop 11 t) - length u) (drop 11 t)))] else [])
                 (tails (drop 11 t)))"
    using assms by (simp only: brief_matches if_True)
  then show ?thesis by (simp only: first_stop)
qed

lemma brief_found:
  "(matcher True briefReflectionRegex (u, None) \<noteq> []) = starts_with True ''Reflection:'' u"
proof (cases "starts_with True ''Reflection:'' u")
  case False then show ?thesis by (simp add: brief_matches)
next
  case True
  from brief_first[OF True] show ?thesis by (auto simp: True)
qed

text \<open>
  What the extractor returns, for every text: the detailed sections in text order, then
  the brief section, with "Reflection:" read in any letter case. It never throws.
\<close>

lemma parse_sections:
  "parseReflectionsFromAIOutput s = Inr (detailed_sections True s @ brief_section True s)"
proof -
  have d: "detailed_loop s 0 [] = Inr (detailed_sections True s)"
    using detailed_loop_sections[of 0 s "[]"] by simp
  note ex = exec_find[of True briefReflectionRegex "starts_with True ''Reflection:''" 0 s,
      OF brief_found]
  show ?thesis
  proof (cases "find_first (starts_with True ''Reflection:'') s")
    case None
    with ex have "exec True briefReflectionRegex s 0 = None" by simp
    with d None show ?thesis
      by (simp add: parseReflectionsFromAIOutput_def brief_section_def)
  next
    case (Some t)
    from find_first_suffix[OF Some] have "starts_with True ''Reflection:'' t" by simp
    from brief_first[OF this] obtain st more where
      m: "matcher True briefReflectionRegex (t, None) = st # more"
         "snd st = Some (until (starts_with True ''####'') (drop 11 t))" by auto
    with ex Some have "\<exists>m0 li. exec True briefReflectionRegex s 0 =
        Some \<lparr>match0 = m0, match1 = Some (until (starts_with True ''####'') (drop 11 t)),
              lastIndex = li\<rparr>" by simp
    with d Some show ?thesis
      by (auto simp: parseReflectionsFromAIOutput_def brief_section_def)
  qed
qed

subsection \<open>What the extractor returns\<close>

lemma find_first_None: "find_first P s = None \<longleftrightarrow> (\<forall>u\<in>set (tails s). \<not> P u)"
  by (induction s) auto

lemma sections_count:
  "length (detailed_sections ic s) = length (filter (\<lambda>u. after_label u \<noteq> None) (tails s))"
proof (induction s)
  case Nil
  show ?case by (simp add: after_label_def)
next
  case (Cons x xs)
  then show ?case by (auto split: option.splits)
qed

text \<open>
  C2, as stated: the body of a detailed section runs to the next detailed label, the
  literal "Reflection:", "####" or the end. On the text below the extractor stops the
  body at "reflection:" in lower case, where the description as stated goes on to the
  end of the text.
\<close>

theorem detailed_body_counterexample:
  "parseReflectionsFromAIOutput ''DETAILED REFLECTION 1: on reflection: fine'' =
     Inr [\<lparr>type = ''DETAILED REFLECTION 1'', content = ''on''\<rparr>,
          \<lparr>type = ''BRIEF REFLECTION'', content = ''fine''\<rparr>] \<and>
   detailed_sections False ''DETAILED REFLECTION 1: on reflection: fine'' =
     [\<lparr>type = ''DETAILED REFLECTION 1'', content = ''on reflection: fine''\<rparr>]"
proof -
  let ?s = "''DETAILED REFLECTION 1: on reflection: fine''"
  have "detailed_sections True ?s @ brief_section True ?s =
          [\<lparr>type = ''DETAILED REFLECTION 1'', content = ''on''\<rparr>,
           \<lparr>type = ''BRIEF REFLECTION'', content = ''fine''\<rparr>]"
    by code_simp
  then have code: "parseReflectionsFromAIOutput ?s =
          Inr [\<lparr>type = ''DETAILED REFLECTION 1'', content = ''on''\<rparr>,
               \<lparr>type = ''BRIEF REFLECTION'', content = ''fine''\<rparr>]"
    by (simp only: parse_sections)
  have stated: "detailed_sections False ?s =
          [\<lparr>type = ''DETAILED REFLECTION 1'', content = ''on reflection: fine''\<rparr>]"
    by code_simp
  from code stated show ?thesis by (rule conjI)
qed

text \<open>
  C2, amended. For every text, the extractor returns one entry for each position where
  a label "DETAILED REFLECTION <number>:" stands (in any letter case), in text order,
  each with the trimmed label text before its colon as type and, as content, the
  trimmed text from the label to the next such label, the next "Reflection:" in any
  letter case, the next "####" or the end of the text; after them come at most
  one entry, of type "BRIEF REFLECTION". A text with no detailed label and no
  "Reflection:" in any letter case yields the empty sequence.
\<close>

theorem detailed_reflections_extracted:
  "\<exists>brief. parseReflectionsFromAIOutput s = Inr (detailed_sections True s @ brief) \<and>
      length (detailed_sections True s) =
        length (filter (\<lambda>u. after_label u \<noteq> None) (tails s)) \<and>
      length brief \<le> 1 \<and> (\<forall>r\<in>set brief. type r = ''BRIEF REFLECTION'') \<and>
      ((\<forall>u\<in>set (tails s). after_label u = None \<and> \<not> starts_with True ''Reflection:'' u)
         \<longrightarrow> parseReflectionsFromAIOutput s = Inr [])"
proof (intro exI conjI)
  show "parseReflectionsFromAIOutput s = Inr (detailed_sections True s @ brief_section True s)"
    by (rule parse_sections)
  show "length (detailed_sections True s) =
          length (filter (\<lambda>u. after_label u \<noteq> None) (tails s))"
    by (rule sections_count)
  show "length (brief_section True s) \<le> 1"
    by (simp add: brief_section_def split: option.splits)
  show "\<forall>r\<in>set (brief_section True s). type r = ''BRIEF REFLECTION''"
    by (auto simp: brief_section_def split: option.splits)
  show "(\<forall>u\<in>set (tails s). after_label u = None \<and> \<not> starts_with True ''Reflection:'' u)
          \<longrightarrow> parseReflectionsFromAIOutput s = Inr []"
  proof
    assume none: "\<forall>u\<in>set (tails s). after_label u = None \<and> \<not> starts_with True ''Reflection:'' u"
    then have "find_first (\<lambda>u. after_label u \<noteq> None) s = None"
      and "find_first (starts_with True ''Reflection:'') s = None"
      by (simp_all add: find_first_None)
    then show "parseReflectionsFromAIOutput s = Inr []"
      by (simp add: parse_sections sections_none brief_section_def)
  qed
qed

theorem detailed_reflections_extracted_witness:
  "\<exists>brief. parseReflectionsFromAIOutput
              ''Intro. DETAILED REFLECTION 1: first part #### detailed reflection 22 : second'' =
       Inr ([\<lparr>type = ''DETAILED REFLECTION 1'', content = ''first part''\<rparr>,
             \<lparr>type = ''detailed reflection 22'', content = ''second''\<rparr>] @ brief) \<and>
       length brief \<le> 1"
proof -
  let ?s = "''Intro. DETAILED REFLECTION 1: first part #### detailed reflection 22 : second''"
  have e: "detailed_sections True ?s =
        [\<lparr>type = ''DETAILED REFLECTION 1'', content = ''first part''\<rparr>,
         \<lparr>type = ''detailed reflection 22'', content = ''second''\<rparr>]"
    by code_simp
  from detailed_reflections_extracted[of ?s] obtain brief where
    b: "parseReflectionsFromAIOutput ?s = Inr (detailed_sections True ?s @ brief)"
       "length brief \<le> 1"
    by blast
  show ?thesis
    by (intro exI conjI) (rule b(1)[unfolded e], rule b(2))
qed

text \<open>
  C3, as stated: the brief section is the first one that begins with the literal label
  "Reflection:". On the text below the extractor takes the section after "reflection:"
  in lower case, which comes first; the literal label stands later.
\<close>

theorem brief_label_counterexample:
  "parseReflectionsFromAIOutput ''On reflection: a #### Reflection: b'' =
     Inr [\<lparr>type = ''BRIEF REFLECTION'', content = ''a''\<rparr>] \<and>
   brief_section False ''On reflection: a #### Reflection: b'' =
     [\<lparr>type = ''BRIEF REFLECTION'', content = ''b''\<rparr>]"
proof -
  let ?s = "''On reflection: a #### Reflection: b''"
  have "detailed_sections True ?s @ brief_section True ?s =
          [\<lparr>type = ''BRIEF REFLECTION'', content = ''a''\<rparr>]"
    by code_simp
  then have code: "parseReflectionsFromAIOutput ?s =
          Inr [\<lparr>type = ''BRIEF REFLECTION'', content = ''a''\<rparr>]"
    by (simp only: parse_sections)
  have stated: "brief_section False ?s = [\<lparr>type = ''BRIEF REFLECTION'', content = ''b''\<rparr>]"
    by code_simp
  from code stated show ?thesis by (rule conjI)
qed

text \<open>
  C3, amended. For every text, the extractor returns all detailed reflections in text
  order, followed by at most one brief reflection, wherever it stands in the text: the
  section after the first "Reflection:" in any letter case, with the fixed type
  "BRIEF REFLECTION" and, as content, the trimmed text up to the next "####" or the
  end of the text.
\<close>

theorem brief_reflection_extracted:
  "parseReflectionsFromAIOutput s =
     Inr (detailed_sections True s @
          (case find_first (starts_with True ''Reflection:'') s of
             None \<Rightarrow> []
           | Some t \<Rightarrow>
               [\<lparr>type = ''BRIEF REFLECTION'',
                 content = trim (until (starts_with True ''####'') (drop 11 t))\<rparr>]))"
proof -
  have "parseReflectionsFromAIOutput s = Inr (detailed_sections True s @ brief_section True s)"
    by (rule parse_sections)
  then show ?thesis
    by (simp only: brief_section_def)
qed

theorem brief_reflection_extracted_witness:
  "parseReflectionsFromAIOutput
     ''Reflection: I learned X. #### DETAILED REFLECTION 3: later #### Reflection: again'' =
   Inr [\<lparr>type = ''DETAILED REFLECTION 3'', content = ''later''\<rparr>,
        \<lparr>type = ''BRIEF REFLECTION'', content = ''I learned X.''\<rparr>]"
proof -
  let ?s = "''Reflection: I learned X. #### DETAILED REFLECTION 3: later #### Reflection: again''"
  have e: "detailed_sections True ?s @
          (case find_first (starts_with True ''Reflection:'') ?s of
             None \<Rightarrow> []
           | Some t \<Rightarrow>
               [\<lparr>type = ''BRIEF REFLECTION'',
                 content = trim (until (starts_with True ''####'') (drop 11 t))\<rparr>]) =
        [\<lparr>type = ''DETAILED REFLECTION 3'', content = ''later''\<rparr>,
         \<lparr>type = ''BRIEF REFLECTION'', content = ''I learned X.''\<rparr>]"
    by code_simp
  show ?thesis
    using brief_reflection_extracted[of ?s] unfolding e .
qed

subsection \<open>JavaScript values\<close>

text \<open>
  The values of a parsed JSON document, with \<open>JUndefined\<close> for a property that is
  absent. A number is the rational it denotes: the handler only tests numbers for
  truthiness and passes them on.
\<close>

datatype jsval =
    JUndefined
  | JNull
  | JBool bool
  | JNum rat
  | JStr string
  | JArr "jsval list"
  | JObj "(string \<times> jsval) list"

fun truthy :: "jsval \<Rightarrow> bool" where
  "truthy JUndefined = False"
| "truthy JNull = False"
| "truthy (JBool b) = b"
| "truthy (JNum n) = (n \<noteq> 0)"
| "truthy (JStr s) = (s \<noteq> [])"
| "truthy (JArr xs) = True"
| "truthy (JObj kvs) = True"

text \<open>\<^verbatim>\<open>a || b\<close>\<close>

definition js_or :: "jsval \<Rightarrow> jsval \<Rightarrow> jsval" where
  "js_or a b = (if truthy a then a else b)"

text \<open>
  \<^verbatim>\<open>v.name\<close>, for the names the handler reads (\<^verbatim>\<open>choices\<close>, \<^verbatim>\<open>message\<close>,
  \<^verbatim>\<open>content\<close>: no prototype defines them): a \<^verbatim>\<open>TypeError\<close> on \<^verbatim>\<open>undefined\<close> and
  \<^verbatim>\<open>null\<close>, the own property of an object, \<^verbatim>\<open>undefined\<close> otherwise.
\<close>

fun get_prop :: "jsval \<Rightarrow> string \<Rightarrow> exn + jsval" where
  "get_prop JUndefined k =
     Inl (TypeError (''Cannot read properties of undefined (reading '' @
                     [CHR 0x27] @ k @ [CHR 0x27] @ '')''))"
| "get_prop JNull k =
     Inl (TypeError (''Cannot read properties of null (reading '' @
                     [CHR 0x27] @ k @ [CHR 0x27] @ '')''))"
| "get_prop (JObj kvs) k = Inr (case map_of kvs k of None \<Rightarrow> JUndefined | Some v \<Rightarrow> v)"
| "get_prop v k = Inr JUndefined"

text \<open>\<^verbatim>\<open>v[0]\<close> on a value that is not \<^verbatim>\<open>undefined\<close> or \<^verbatim>\<open>null\<close>.\<close>

fun first_element :: "jsval \<Rightarrow> jsval" where
  "first_element (JArr xs) = (case xs of [] \<Rightarrow> JUndefined | x # _ \<Rightarrow> x)"
| "first_element (JStr s) = (case s of [] \<Rightarrow> JUndefined | c # _ \<Rightarrow> JStr [c])"
| "first_element (JObj kvs) = (case map_of kvs ''0'' of None \<Rightarrow> JUndefined | Some v \<Rightarrow> v)"
| "first_element v = JUndefined"

text \<open>
  The string a value is converted to where the code uses it as text: by \<^verbatim>\<open>RegExp.exec\<close>
  (lines 27 and 30) and in the template literal of line 185. A string is itself; an
  array is its elements joined by commas, \<^verbatim>\<open>undefined\<close> and \<^verbatim>\<open>null\<close> elements as the empty
  string; an object parsed from JSON is \<^verbatim>\<open>[object Object]\<close>, unless it has a property
  \<^verbatim>\<open>toString\<close> of its own: that property is no function, the inherited \<^verbatim>\<open>valueOf\<close>
  returns the object, and the conversion throws. How a number is printed is the
  engine's, \<open>number\<close>.
\<close>

fun join_strings :: "(exn + string) list \<Rightarrow> exn + string" where
  "join_strings [] = Inr []"
| "join_strings [x] = x"
| "join_strings (x # y # ys) =
     (case x of
        Inl e \<Rightarrow> Inl e
      | Inr s \<Rightarrow> (case join_strings (y # ys) of
                   Inl e \<Rightarrow> Inl e
                 | Inr t \<Rightarrow> Inr (s @ '','' @ t)))"

fun js_string :: "(rat \<Rightarrow> string) \<Rightarrow> jsval \<Rightarrow> exn + string" where
  "js_string number JUndefined = Inr ''undefined''"
| "js_string number JNull = Inr ''null''"
| "js_string number (JBool b) = Inr (if b then ''true'' else ''false'')"
| "js_string number (JNum n) = Inr (number n)"
| "js_string number (JStr s) = Inr s"
| "js_string number (JArr xs) =
     join_strings (map (\<lambda>x. if x = JUndefined \<or> x = JNull then Inr []
                             else js_string number x) xs)"
| "js_string number (JObj kvs) =
     (case map_of kvs ''toString'' of
        None \<Rightarrow> Inr ''[object Object]''
      | Some f \<Rightarrow> Inl (TypeError ''Cannot convert object to primitive value''))"

subsection \<open>The request, the environment and the collaborators\<close>

text \<open>
  The fields the handler destructures from \<^verbatim>\<open>req.body\<close>. \<^verbatim>\<open>messages\<close> and
  \<^verbatim>\<open>tools\<close> are arrays when they are present, as the API's schema has them (\<open>None\<close>
  is an absent or \<^verbatim>\<open>null\<close> field); every other field is any JSON value.
\<close>

record chat_body =
  model :: jsval
  messages :: "jsval list option"
  temperature :: jsval
  top_p :: jsval
  top_k :: jsval
  max_tokens :: jsval
  presence_penalty :: jsval
  frequency_penalty :: jsval
  stream :: jsval
  tools :: "jsval list option"
  tool_choice :: jsval
  currentThreadId :: jsval

record request =
  req_method :: string
  body :: "chat_body option"

record env =
  FIREWORKS_API_KEY :: "string option"
  MEM_API_KEY :: "string option"

text \<open>\<^verbatim>\<open>!process.env.X\<close>: the variable is unset or empty.\<close>

definition unset :: "string option \<Rightarrow> bool" where
  "unset v = (case v of None \<Rightarrow> True | Some s \<Rightarrow> s = [])"

type_synonym byte = "8 word"

datatype read_result = Chunk "byte list" | Done | ReadFailed exn

text \<open>
  What \<^verbatim>\<open>fetch\<close> resolves to: the status, what \<^verbatim>\<open>text()\<close> and \<^verbatim>\<open>json()\<close> give (reading
  or parsing the body can fail), and the body stream, as the result of each successive
  \<^verbatim>\<open>reader.read()\<close>, or \<open>None\<close> for a \<^verbatim>\<open>null\<close> body.
\<close>

record upstream =
  up_status :: nat
  up_text :: "exn + string"
  up_json :: "exn + jsval"
  up_body :: "(nat \<Rightarrow> read_result) option"

definition ok :: "upstream \<Rightarrow> bool" where
  "ok r = (200 \<le> up_status r \<and> up_status r \<le> 299)"

record fetch_call =
  url :: string
  headers :: "(string \<times> string) list"
  payload :: "(string \<times> jsval) list"

text \<open>A stored reflection; \<^verbatim>\<open>kv.set\<close> takes its key and the record.\<close>

record reflection_record = reflection +
  threadId :: jsval
  timestamp :: string

datatype call =
    Fetch fetch_call
  | KvSet string reflection_record
  | Mem0Add "(string \<times> jsval) list" jsval

datatype log = Log string | LogError string

text \<open>
  The collaborators: what \<^verbatim>\<open>fetch\<close> does with a call, whether the n-th \<^verbatim>\<open>kv.set\<close> of the
  request and \<^verbatim>\<open>mem0.add\<close> reject, the n-th reading of the clock, the n-th random
  suffix, and how the engine prints a number.
\<close>

record world =
  fetch :: "fetch_call \<Rightarrow> exn + upstream"
  kv_set :: "nat \<Rightarrow> exn option"
  mem0_add :: "exn option"
  now :: "nat \<Rightarrow> string"
  random :: "nat \<Rightarrow> string"
  number_to_string :: "rat \<Rightarrow> string"

datatype res_body = NoBody | JsonBody jsval | StreamBody "byte list list"

record response =
  res_headers :: "(string \<times> string) list"
  res_status :: nat
  res_body :: res_body

record outcome =
  response :: response
  calls :: "call list"
  logs :: "log list"


subsection \<open>The text decoder of the streaming branch\<close>

text \<open>
  \<^verbatim>\<open>new TextDecoder()\<close> decodes UTF-8, replaces what is malformed by U+FFFD and drops a
  byte order mark at the start of the stream. With \<^verbatim>\<open>{stream: true}\<close> the decoder keeps an
  unfinished sequence for the next call. The state and the steps are those of the
  UTF-8 decoder of the Encoding standard; a byte that cannot continue a sequence is
  an error and is then read again as a first byte. \<^verbatim>\<open>res.write\<close> of the decoded string
  sends its UTF-8 encoding.
\<close>

record utf8_decoder =
  code_point :: nat
  bytes_seen :: nat
  bytes_needed :: nat
  lower_boundary :: nat
  upper_boundary :: nat

definition fresh :: utf8_decoder where
  "fresh = \<lparr>code_point = 0, bytes_seen = 0, bytes_needed = 0,
             lower_boundary = 0x80, upper_boundary = 0xBF\<rparr>"

definition lead_byte :: "nat \<Rightarrow> utf8_decoder \<times> nat list" where
  "lead_byte b =
     (if b \<le> 0x7F then (fresh, [b])
      else if 0xC2 \<le> b \<and> b \<le> 0xDF then
        (fresh\<lparr>bytes_needed := 1, code_point := b mod 32\<rparr>, [])
      else if 0xE0 \<le> b \<and> b \<le> 0xEF then
        (fresh\<lparr>lower_boundary := (if b = 0xE0 then 0xA0 else 0x80),
               upper_boundary := (if b = 0xED then 0x9F else 0xBF),
               bytes_needed := 2, code_point := b mod 16\<rparr>, [])
      else if 0xF0 \<le> b \<and> b \<le> 0xF4 then
        (fresh\<lparr>lower_boundary := (if b = 0xF0 then 0x90 else 0x80),
               upper_boundary := (if b = 0xF4 then 0x8F else 0xBF),
               bytes_needed := 3, code_point := b mod 8\<rparr>, [])
      else (fresh, [0xFFFD]))"

definition utf8_step :: "utf8_decoder \<Rightarrow> nat \<Rightarrow> utf8_decoder \<times> nat list" where
  "utf8_step d b =
     (if bytes_needed d = 0 then lead_byte b
      else if b < lower_boundary d \<or> upper_boundary d < b then
        (fst (lead_byte b), 0xFFFD # snd (lead_byte b))
      else
        (let cp = code_point d * 64 + b mod 64 in
         if Suc (bytes_seen d) \<noteq> bytes_needed d then
           (d\<lparr>lower_boundary := 0x80, upper_boundary := 0xBF,
              code_point := cp, bytes_seen := Suc (bytes_seen d)\<rparr>, [])
         else (fresh, [cp])))"

fun utf8_run :: "utf8_decoder \<Rightarrow> byte list \<Rightarrow> utf8_decoder \<times> nat list" where
  "utf8_run d [] = (d, [])"
| "utf8_run d (b # bs) =
     (let step = utf8_step d (unat b); rest = utf8_run (fst step) bs
      in (fst rest, snd step @ snd rest))"

record text_decoder =
  utf8 :: utf8_decoder
  bom_seen :: bool

definition new_decoder :: text_decoder where
  "new_decoder = \<lparr>utf8 = fresh, bom_seen = False\<rparr>"

definition decode :: "text_decoder \<Rightarrow> byte list \<Rightarrow> text_decoder \<times> nat list" where
  "decode td v =
     (let run = utf8_run (utf8 td) v; out = snd run in
      if bom_seen td \<or> out = [] then (td\<lparr>utf8 := fst run\<rparr>, out)
      else (\<lparr>utf8 = fst run, bom_seen = True\<rparr>, if hd out = 0xFEFF then tl out else out))"

definition encode_code_point :: "nat \<Rightarrow> byte list" where
  "encode_code_point cp =
     (if cp < 0x80 then [of_nat cp]
      else if cp < 0x800 then [of_nat (0xC0 + cp div 64), of_nat (0x80 + cp mod 64)]
      else if cp < 0x10000 then
        [of_nat (0xE0 + cp div 4096), of_nat (0x80 + cp div 64 mod 64), of_nat (0x80 + cp mod 64)]
      else
        [of_nat (0xF0 + cp div 262144), of_nat (0x80 + cp div 4096 mod 64),
         of_nat (0x80 + cp div 64 mod 64), of_nat (0x80 + cp mod 64)])"

definition utf8_encode :: "nat list \<Rightarrow> byte list" where
  "utf8_encode cps = concat (map encode_code_point cps)"

definition ascii_bytes :: "string \<Rightarrow> byte list" where
  "ascii_bytes s = map (\<lambda>c. of_nat (of_char c)) s"

text \<open>The event \<^verbatim>\<open>data: {"error": "Streaming interrupted"}\n\n\<close> of the inner \<^verbatim>\<open>catch\<close>.\<close>

definition interrupted :: "byte list" where
  "interrupted =
     ascii_bytes (''data: {'' @ [CHR 0x22] @ ''error'' @ [CHR 0x22] @ '': '' @ [CHR 0x22] @
                  ''Streaming interrupted'' @ [CHR 0x22] @ ''}'' @ [CHR 0x0A, CHR 0x0A])"

text \<open>
  The read loop of lines 139-152. It ends when the stream is done or a read fails; on a
  stream that never ends it does not return, which is the value \<open>None\<close>.
\<close>

partial_function (option) pump ::
  "(nat \<Rightarrow> read_result) \<Rightarrow> nat \<Rightarrow> text_decoder \<Rightarrow> byte list list \<Rightarrow> (byte list list \<times> log list) option"
where
  "pump read n decoder written =
     (case read n of
        Done \<Rightarrow> Some (written, [])
      | ReadFailed e \<Rightarrow> Some (written @ [interrupted], [LogError ''Streaming error:''])
      | Chunk v \<Rightarrow>
          pump read (Suc n) (fst (decode decoder v))
               (written @ [utf8_encode (snd (decode decoder v))]))"

subsection \<open>The handler\<close>

definition cors :: "(string \<times> string) list" where
  "cors = [(''Access-Control-Allow-Origin'', ''*''),
           (''Access-Control-Allow-Methods'', ''GET, POST, OPTIONS''),
           (''Access-Control-Allow-Headers'', ''Content-Type, Authorization'')]"

definition stream_headers :: "(string \<times> string) list" where
  "stream_headers = [(''Content-Type'', ''text/event-stream''),
                     (''Cache-Control'', ''no-cache''),
                     (''Connection'', ''keep-alive''),
                     (''Access-Control-Allow-Origin'', ''*''),
                     (''Access-Control-Allow-Methods'', ''GET, POST, OPTIONS''),
                     (''Access-Control-Allow-Headers'', ''Content-Type'')]"

definition respond ::
  "(string \<times> string) list \<Rightarrow> nat \<Rightarrow> res_body \<Rightarrow> call list \<Rightarrow> log list \<Rightarrow> outcome" where
  "respond hs st b cs ls =
     \<lparr>response = \<lparr>res_headers = hs, res_status = st, res_body = b\<rparr>, calls = cs, logs = ls\<rparr>"

definition error_json :: "string \<Rightarrow> string \<Rightarrow> jsval" where
  "error_json e m = JObj [(''error'', JStr e), (''message'', JStr m)]"

fun message :: "exn \<Rightarrow> string" where
  "message (TypeError m) = m"
| "message (Rejected m) = m"

text \<open>The outer \<^verbatim>\<open>catch\<close> of lines 220-226.\<close>

definition internal_error ::
  "(string \<times> string) list \<Rightarrow> exn \<Rightarrow> call list \<Rightarrow> log list \<Rightarrow> outcome" where
  "internal_error hs e cs ls =
     respond hs 500 (JsonBody (error_json ''Internal server error'' (message e))) cs
             (ls @ [LogError ''Server error:''])"

text \<open>Lines 79-97: the request sent to the provider.\<close>

definition fireworksPayload :: "chat_body \<Rightarrow> jsval list \<Rightarrow> (string \<times> jsval) list" where
  "fireworksPayload b msgs =
     [(''model'', model b),
      (''messages'', JArr msgs),
      (''temperature'', js_or (temperature b) (JNum (6 / 10))),
      (''top_p'', js_or (top_p b) (JNum 1)),
      (''top_k'', js_or (top_k b) (JNum 40)),
      (''max_tokens'', js_or (max_tokens b) (JNum 4096)),
      (''presence_penalty'', js_or (presence_penalty b) (JNum 0)),
      (''frequency_penalty'', js_or (frequency_penalty b) (JNum 0)),
      (''stream'', js_or (stream b) (JBool False))] @
     (case tools b of
        None \<Rightarrow> []
      | Some ts \<Rightarrow>
          if ts \<noteq> [] then
            (''tools'', JArr ts) #
            (if truthy (tool_choice b) then [(''tool_choice'', tool_choice b)] else [])
          else [])"

definition fireworksHeaders :: "string \<Rightarrow> (string \<times> string) list" where
  "fireworksHeaders apiKey =
     [(''Authorization'', ''Bearer '' @ apiKey), (''Content-Type'', ''application/json'')]"

definition completions_url :: string where
  "completions_url = ''https://api.fireworks.ai/inference/v1/chat/completions''"

text \<open>
  The one call to the provider (lines 108-112 and 156-160); the streaming branch adds
  the \<^verbatim>\<open>Accept\<close> header before it calls.
\<close>

definition upstream_call :: "env \<Rightarrow> chat_body \<Rightarrow> jsval list \<Rightarrow> fetch_call" where
  "upstream_call e b msgs =
     \<lparr>url = completions_url,
      headers = fireworksHeaders (case FIREWORKS_API_KEY e of None \<Rightarrow> [] | Some k \<Rightarrow> k) @
                (if truthy (stream b) then [(''Accept'', ''text/event-stream'')] else []),
      payload = fireworksPayload b msgs\<rparr>"

text \<open>Lines 114-121 and 162-169: the provider answered with a status outside 200-299.\<close>

definition relay_failure :: "upstream \<Rightarrow> call list \<Rightarrow> log list \<Rightarrow> outcome" where
  "relay_failure r cs ls =
     (case up_text r of
        Inl e \<Rightarrow> internal_error cors e cs ls
      | Inr errorText \<Rightarrow>
          respond cors (up_status r) (JsonBody (error_json ''API request failed'' errorText)) cs
                  (ls @ [LogError ''Fireworks API Error:'']))"

text \<open>
  Line 175: \<^verbatim>\<open>data.choices && data.choices[0] && data.choices[0].message &&
  data.choices[0].message.content ? data.choices[0].message.content : ''\<close>.
\<close>

definition aiResponseContent :: "jsval \<Rightarrow> exn + jsval" where
  "aiResponseContent data =
     (case get_prop data ''choices'' of
        Inl e \<Rightarrow> Inl e
      | Inr choices \<Rightarrow>
          if \<not> truthy choices then Inr (JStr [])
          else if \<not> truthy (first_element choices) then Inr (JStr [])
          else (case get_prop (first_element choices) ''message'' of
                  Inl e \<Rightarrow> Inl e
                | Inr msg \<Rightarrow>
                    if \<not> truthy msg then Inr (JStr [])
                    else (case get_prop msg ''content'' of
                            Inl e \<Rightarrow> Inl e
                          | Inr c \<Rightarrow> if truthy c then Inr c else Inr (JStr []))))"

text \<open>
  Line 181: the patterns run on the reply content converted to a string; a content
  that cannot be converted throws.
\<close>

definition reflections_of :: "world \<Rightarrow> jsval \<Rightarrow> exn + reflection list" where
  "reflections_of w aiContent =
     (case js_string (number_to_string w) aiContent of
        Inl e \<Rightarrow> Inl e
      | Inr aiOutput \<Rightarrow> parseReflectionsFromAIOutput aiOutput)"

text \<open>
  Lines 184-198: one \<^verbatim>\<open>kv.set\<close> per reflection; a rejected write is logged and the loop
  goes on. The k-th pass converts the thread id for the key
  \<^verbatim>\<open>reflection:<threadId>:<timestamp>:<suffix>\<close> (outside the \<^verbatim>\<open>try\<close>: a thread id that
  cannot be converted ends the loop with its exception), reads the clock twice and the
  random source once. The result is the calls made, the lines logged and the exception
  that ended the loop, if any.
\<close>

fun store_reflections ::
  "world \<Rightarrow> jsval \<Rightarrow> nat \<Rightarrow> reflection list \<Rightarrow> call list \<times> log list \<times> exn option" where
  "store_reflections w thread k [] = ([], [], None)"
| "store_reflections w thread k (r # rs) =
     (case js_string (number_to_string w) thread of
        Inl e \<Rightarrow> ([], [], Some e)
      | Inr t \<Rightarrow>
          (let reflectionId = ''reflection:'' @ t @ '':'' @ now w (2 * k) @ '':'' @ random w k;
               write = KvSet reflectionId
                         \<lparr>type = type r, content = content r,
                          threadId = thread, timestamp = now w (2 * k + 1)\<rparr>;
               line = (case kv_set w k of
                         None \<Rightarrow> Log ''Reflection stored in KV:''
                       | Some e \<Rightarrow> LogError ''Error storing reflection in KV:'');
               rest = store_reflections w thread (Suc k) rs
           in (write # fst rest, line # fst (snd rest), snd (snd rest))))"

text \<open>Line 201: \<^verbatim>\<open>messages[messages.length - 1].content\<close>.\<close>

definition userMessageForMem0 :: "jsval list \<Rightarrow> exn + jsval" where
  "userMessageForMem0 msgs =
     (if msgs = [] then get_prop JUndefined ''content'' else get_prop (last msgs) ''content'')"

text \<open>Lines 204-215: the turn handed to the memory service.\<close>

definition store_turn :: "world \<Rightarrow> jsval \<Rightarrow> jsval \<Rightarrow> jsval \<Rightarrow> call list \<times> log list" where
  "store_turn w thread userMessage agentResponse =
     (if truthy userMessage \<and> truthy agentResponse then
        ([Mem0Add [(''user'', userMessage), (''agent'', agentResponse)]
                  (js_or thread (JStr ''default-user''))],
         [case mem0_add w of
            None \<Rightarrow> Log ''Conversation turn stored in Mem0 for userId:''
          | Some e \<Rightarrow> LogError ''Error storing conversation in Mem0:''])
      else ([], []))"

text \<open>Lines 155-218: the buffered branch, after the request was built.\<close>

definition buffered :: "world \<Rightarrow> chat_body \<Rightarrow> jsval list \<Rightarrow> fetch_call \<Rightarrow> log list \<Rightarrow> outcome" where
  "buffered w b msgs c ls =
     (case fetch w c of
        Inl e \<Rightarrow> internal_error cors e [Fetch c] ls
      | Inr r \<Rightarrow>
          if \<not> ok r then relay_failure r [Fetch c] ls
          else (case up_json r of
            Inl e \<Rightarrow> internal_error cors e [Fetch c] ls
          | Inr data \<Rightarrow>
              (case aiResponseContent data of
                 Inl e \<Rightarrow> internal_error cors e [Fetch c] ls
               | Inr aiContent \<Rightarrow>
                   (case reflections_of w aiContent of
                      Inl e \<Rightarrow> internal_error cors e [Fetch c] ls
                    | Inr reflections \<Rightarrow>
                        (let stored = store_reflections w
                                        (js_or (currentThreadId b) (JStr ''unknown-thread''))
                                        0 reflections;
                             writes = Fetch c # fst stored;
                             lines = ls @ fst (snd stored)
                         in case snd (snd stored) of
                              Some e \<Rightarrow> internal_error cors e writes lines
                            | None \<Rightarrow>
                                (case userMessageForMem0 msgs of
                                   Inl e \<Rightarrow> internal_error cors e writes lines
                                 | Inr userMessage \<Rightarrow>
                                     (let turn = store_turn w (currentThreadId b)
                                                   userMessage aiContent
                                      in respond cors 200 (JsonBody data)
                                           (writes @ fst turn) (lines @ snd turn))))))))"

text \<open>Lines 105-153: the streaming branch.\<close>

definition streaming :: "world \<Rightarrow> fetch_call \<Rightarrow> log list \<Rightarrow> outcome option" where
  "streaming w c ls =
     (case fetch w c of
        Inl e \<Rightarrow> Some (internal_error cors e [Fetch c] ls)
      | Inr r \<Rightarrow>
          if \<not> ok r then Some (relay_failure r [Fetch c] ls)
          else (case up_body r of
            None \<Rightarrow>
              Some (respond (cors @ stream_headers) 500
                      (JsonBody (JObj [(''error'', JStr ''No response body from API'')]))
                      [Fetch c] ls)
          | Some read \<Rightarrow>
              (case pump read 0 new_decoder [] of
                 None \<Rightarrow> None
               | Some done \<Rightarrow>
                   Some (respond (cors @ stream_headers) 200 (StreamBody (fst done))
                           [Fetch c] (ls @ snd done)))))"

text \<open>Lines 4-226. \<open>None\<close>: the handler never responds.\<close>

definition handler :: "env \<Rightarrow> world \<Rightarrow> request \<Rightarrow> outcome option" where
  "handler e w req =
     (if req_method req = ''OPTIONS'' then Some (respond cors 200 NoBody [] [])
      else if req_method req \<noteq> ''POST'' then
        Some (respond cors 405 (JsonBody (JObj [(''error'', JStr ''Method not allowed'')])) [] [])
      else if unset (FIREWORKS_API_KEY e) then
        Some (respond cors 500
                (JsonBody (error_json ''Server configuration error''
                   ''API key not configured. Please check server environment variables.''))
                [] [LogError ''FIREWORKS_API_KEY environment variable not set''])
      else if unset (MEM_API_KEY e) then
        Some (respond cors 500
                (JsonBody (error_json ''Server configuration error'' ''Mem0 API key not configured.''))
                [] [LogError ''MEM_API_KEY environment variable not set''])
      else (case body req of
        None \<Rightarrow>
          Some (internal_error cors
                  (TypeError ''Cannot destructure property of req.body as it is undefined.'') [] [])
      | Some b \<Rightarrow>
          (case (if truthy (model b) then messages b else None) of
             None \<Rightarrow>
               Some (respond cors 400
                       (JsonBody (error_json ''Bad request''
                          ''Missing required fields: model and messages''))
                       [] [LogError ''Missing required fields in request:''])
           | Some msgs \<Rightarrow>
               (let ls = [Log ''Processing request:''];
                    c = upstream_call e b msgs
                in if truthy (stream b) then streaming w c ls
                   else Some (buffered w b msgs c ls)))))"


subsection \<open>Concrete requests\<close>

definition sample_env :: env where
  "sample_env = \<lparr>FIREWORKS_API_KEY = Some ''fw-key'', MEM_API_KEY = Some ''m0-key''\<rparr>"

definition sample_body :: chat_body where
  "sample_body =
     \<lparr>model = JStr ''accounts/fireworks/models/qwen3-235b-a22b'',
      messages = Some [JObj [(''role'', JStr ''user''), (''content'', JStr ''hello'')]],
      temperature = JUndefined, top_p = JUndefined, top_k = JUndefined,
      max_tokens = JUndefined, presence_penalty = JUndefined, frequency_penalty = JUndefined,
      stream = JUndefined, tools = None, tool_choice = JUndefined,
      currentThreadId = JUndefined\<rparr>"

definition post :: "chat_body \<Rightarrow> request" where
  "post b = \<lparr>req_method = ''POST'', body = Some b\<rparr>"

definition answering :: "upstream \<Rightarrow> world" where
  "answering r = \<lparr>fetch = (\<lambda>c. Inr r), kv_set = (\<lambda>n. None), mem0_add = None,
                    now = (\<lambda>n. ''2026-01-01T00:00:00.000Z''), random = (\<lambda>n. ''abcdefghi''),
                    number_to_string = (\<lambda>n. ''0'')\<rparr>"

definition failed_upstream :: upstream where
  "failed_upstream = \<lparr>up_status = 429, up_text = Inr ''rate limited'',
                        up_json = Inl (Rejected ''Unexpected token''), up_body = None\<rparr>"

lemmas handler_defs = handler_def respond_def internal_error_def relay_failure_def
  buffered_def streaming_def unset_def ok_def error_json_def

lemmas sample_defs = sample_env_def sample_body_def post_def answering_def failed_upstream_def

text \<open>
  C6. A POST request for which either secret is missing from the environment gets
  status 500 with the error "Server configuration error", and no call goes out to the
  provider, the key-value store or the memory service.
\<close>

theorem missing_secret_is_500:
  assumes post: "req_method req = ''POST''"
      and absent: "FIREWORKS_API_KEY e = None \<or> MEM_API_KEY e = None"
  shows "\<exists>out msg. handler e w req = Some out \<and> res_status (response out) = 500 \<and>
           res_body (response out) = JsonBody (error_json ''Server configuration error'' msg) \<and>
           calls out = []"
proof (cases "unset (FIREWORKS_API_KEY e)")
  case True
  with post show ?thesis
    by (auto simp: handler_def respond_def)
next
  case False
  with absent have "MEM_API_KEY e = None" by (auto simp: unset_def)
  then have "unset (MEM_API_KEY e)" by (simp add: unset_def)
  with False post show ?thesis
    by (auto simp: handler_def respond_def)
qed

theorem missing_secret_is_500_witness:
  "req_method (post sample_body) = ''POST'' \<and>
   (FIREWORKS_API_KEY (sample_env\<lparr>MEM_API_KEY := None\<rparr>) = None \<or>
    MEM_API_KEY (sample_env\<lparr>MEM_API_KEY := None\<rparr>) = None) \<and>
   (\<exists>out msg. handler (sample_env\<lparr>MEM_API_KEY := None\<rparr>) (answering failed_upstream)
                 (post sample_body) = Some out \<and>
      res_status (response out) = 500 \<and>
      res_body (response out) = JsonBody (error_json ''Server configuration error'' msg) \<and>
      calls out = [])"
proof -
  have p: "req_method (post sample_body) = ''POST''" by (simp add: post_def)
  have a: "FIREWORKS_API_KEY (sample_env\<lparr>MEM_API_KEY := None\<rparr>) = None \<or>
           MEM_API_KEY (sample_env\<lparr>MEM_API_KEY := None\<rparr>) = None" by simp
  from p a missing_secret_is_500[OF p a, of "answering failed_upstream"] show ?thesis by blast
qed


text \<open>
  C5, as stated: the message of the 400 says which of the two fields is missing. It
  does not: a request without \<^verbatim>\<open>model\<close> and a request without \<^verbatim>\<open>messages\<close> get the same
  response; and without the inference key the same request gets a 500.
\<close>

theorem missing_field_message_counterexample:
  "handler sample_env (answering failed_upstream) (post (sample_body\<lparr>model := JUndefined\<rparr>)) =
   handler sample_env (answering failed_upstream) (post (sample_body\<lparr>messages := None\<rparr>)) \<and>
   (\<exists>out. handler (sample_env\<lparr>FIREWORKS_API_KEY := None\<rparr>) (answering failed_upstream)
            (post (sample_body\<lparr>model := JUndefined\<rparr>)) = Some out \<and>
          res_status (response out) = 500)"
  by (simp add: handler_defs sample_defs)

text \<open>
  C5, amended. With both secrets configured, a POST request whose body lacks a truthy
  \<^verbatim>\<open>model\<close> or has no \<^verbatim>\<open>messages\<close> gets status 400 with the fixed message "Missing
  required fields: model and messages", whichever field is missing, and no call goes
  out.
\<close>

theorem missing_field_is_400:
  assumes post: "req_method req = ''POST''"
      and keys: "\<not> unset (FIREWORKS_API_KEY e)" "\<not> unset (MEM_API_KEY e)"
      and body: "body req = Some b"
      and missing: "\<not> truthy (model b) \<or> messages b = None"
  shows "\<exists>out. handler e w req = Some out \<and> res_status (response out) = 400 \<and>
           res_body (response out) =
             JsonBody (error_json ''Bad request'' ''Missing required fields: model and messages'') \<and>
           calls out = []"
proof -
  from missing have "(if truthy (model b) then messages b else None) = None"
    by auto
  with post keys body show ?thesis
    by (simp add: handler_def respond_def)
qed

theorem missing_field_is_400_witness:
  "req_method (post (sample_body\<lparr>messages := None\<rparr>)) = ''POST'' \<and>
   \<not> unset (FIREWORKS_API_KEY sample_env) \<and> \<not> unset (MEM_API_KEY sample_env) \<and>
   body (post (sample_body\<lparr>messages := None\<rparr>)) = Some (sample_body\<lparr>messages := None\<rparr>) \<and>
   messages (sample_body\<lparr>messages := None\<rparr>) = None \<and>
   (\<exists>out. handler sample_env (answering failed_upstream) (post (sample_body\<lparr>messages := None\<rparr>))
            = Some out \<and> res_status (response out) = 400 \<and>
      res_body (response out) =
        JsonBody (error_json ''Bad request'' ''Missing required fields: model and messages'') \<and>
      calls out = [])"
proof -
  let ?b = "sample_body\<lparr>messages := None\<rparr>"
  have 1: "req_method (post ?b) = ''POST''" by (simp add: post_def)
  have 2: "\<not> unset (FIREWORKS_API_KEY sample_env)" by (simp add: sample_env_def unset_def)
  have 3: "\<not> unset (MEM_API_KEY sample_env)" by (simp add: sample_env_def unset_def)
  have 4: "body (post ?b) = Some ?b" by (simp add: post_def)
  have 5: "\<not> truthy (model ?b) \<or> messages ?b = None" by simp
  have 6: "messages ?b = None" by simp
  from missing_field_is_400[OF 1 2 3 4 5, of "answering failed_upstream"] 1 2 3 4 6
  show ?thesis by blast
qed

text \<open>
  C4, as stated: the handler relays the upstream status code and the upstream error body
  verbatim. The provider answers 429 with the body "rate limited": what the caller gets
  is not that body but a JSON object of the handler's own, tagged "API request failed",
  with the upstream text as its message. And when the error body cannot be read, the
  status sent is 500, not the upstream's 429.
\<close>

theorem upstream_body_counterexample:
  "up_status failed_upstream = 429 \<and> up_text failed_upstream = Inr ''rate limited'' \<and>
   (\<exists>out. handler sample_env (answering failed_upstream) (post sample_body) = Some out \<and>
      res_body (response out) =
        JsonBody (JObj [(''error'', JStr ''API request failed''),
                        (''message'', JStr ''rate limited'')])) \<and>
   (\<exists>out. handler sample_env
             (answering (failed_upstream\<lparr>up_text := Inl (Rejected ''terminated'')\<rparr>))
             (post sample_body) = Some out \<and>
      res_status (response out) = 500)"
  by (simp add: handler_defs sample_defs)

text \<open>
  C4, amended. When the provider answers with a status outside 200-299 and its error body
  can be read, the handler responds with that status and with a JSON object that has the
  error tag "API request failed" and the error body, verbatim, as its message; the call
  to the provider is the only call made (nothing is extracted, written to the key-value
  store or sent to the memory service). This holds for a streaming and for a buffered
  request.
\<close>

theorem upstream_failure_is_relayed:
  assumes post: "req_method req = ''POST''"
      and keys: "\<not> unset (FIREWORKS_API_KEY e)" "\<not> unset (MEM_API_KEY e)"
      and body: "body req = Some b" "truthy (model b)" "messages b = Some msgs"
      and reply: "fetch w (upstream_call e b msgs) = Inr r" "\<not> ok r" "up_text r = Inr errorText"
  shows "handler e w req =
           Some \<lparr>response = \<lparr>res_headers = cors, res_status = up_status r,
                              res_body = JsonBody (error_json ''API request failed'' errorText)\<rparr>,
                 calls = [Fetch (upstream_call e b msgs)],
                 logs = [Log ''Processing request:'', LogError ''Fireworks API Error:'']\<rparr>"
proof (cases "truthy (stream b)")
  case True
  with assms show ?thesis
    by (simp add: handler_def streaming_def relay_failure_def respond_def)
next
  case False
  with assms show ?thesis
    by (simp add: handler_def buffered_def relay_failure_def respond_def)
qed

theorem upstream_failure_is_relayed_witness:
  "handler sample_env (answering failed_upstream) (post sample_body) =
     Some \<lparr>response = \<lparr>res_headers = cors, res_status = 429,
                        res_body = JsonBody (error_json ''API request failed'' ''rate limited'')\<rparr>,
           calls = [Fetch (upstream_call sample_env sample_body
                      [JObj [(''role'', JStr ''user''), (''content'', JStr ''hello'')]])],
           logs = [Log ''Processing request:'', LogError ''Fireworks API Error:'']\<rparr>"
proof -
  let ?msgs = "[JObj [(''role'', JStr ''user''), (''content'', JStr ''hello'')]]"
  have 1: "req_method (post sample_body) = ''POST''" by (simp add: post_def)
  have 2: "\<not> unset (FIREWORKS_API_KEY sample_env)" by (simp add: sample_env_def unset_def)
  have 3: "\<not> unset (MEM_API_KEY sample_env)" by (simp add: sample_env_def unset_def)
  have 4: "body (post sample_body) = Some sample_body" by (simp add: post_def)
  have 5: "truthy (model sample_body)" by (simp add: sample_body_def)
  have 6: "messages sample_body = Some ?msgs" by (simp add: sample_body_def)
  have 7: "fetch (answering failed_upstream) (upstream_call sample_env sample_body ?msgs) =
             Inr failed_upstream" by (simp add: answering_def)
  have 8: "\<not> ok failed_upstream" by (simp add: ok_def failed_upstream_def)
  have 9: "up_text failed_upstream = Inr ''rate limited''" by (simp add: failed_upstream_def)
  from upstream_failure_is_relayed[OF 1 2 3 4 5 6 7 8 9] show ?thesis
    by (simp add: failed_upstream_def)
qed

text \<open>
  C1, at the request that sets \<^verbatim>\<open>temperature\<close> to 0: the payload carries the default 0.6,
  not the caller's value (\<^verbatim>\<open>temperature || 0.6\<close> takes 0 for absent). The same holds for
  \<^verbatim>\<open>top_p\<close>, \<^verbatim>\<open>top_k\<close> and \<^verbatim>\<open>max_tokens\<close>.
\<close>

theorem zero_temperature_gets_default:
  "map_of (fireworksPayload (sample_body\<lparr>temperature := JNum 0\<rparr>) []) ''temperature'' =
     Some (JNum (6 / 10)) \<and>
   map_of (fireworksPayload (sample_body\<lparr>top_p := JNum 0\<rparr>) []) ''top_p'' = Some (JNum 1) \<and>
   map_of (fireworksPayload (sample_body\<lparr>top_k := JNum 0\<rparr>) []) ''top_k'' = Some (JNum 40) \<and>
   map_of (fireworksPayload (sample_body\<lparr>max_tokens := JNum 0\<rparr>) []) ''max_tokens'' =
     Some (JNum 4096)"
  by (simp add: fireworksPayload_def js_or_def sample_body_def)

text \<open>
  What does hold of the payload: a parameter the caller gave a truthy value keeps it, an
  absent one gets its default, and \<^verbatim>\<open>tools\<close> is there exactly when a non-empty list was
  given, \<^verbatim>\<open>tool_choice\<close> only together with it.
\<close>

lemma payload_parameters:
  "map_of (fireworksPayload b msgs) ''temperature'' = Some (js_or (temperature b) (JNum (6 / 10)))"
  "map_of (fireworksPayload b msgs) ''top_p'' = Some (js_or (top_p b) (JNum 1))"
  "map_of (fireworksPayload b msgs) ''top_k'' = Some (js_or (top_k b) (JNum 40))"
  "map_of (fireworksPayload b msgs) ''max_tokens'' = Some (js_or (max_tokens b) (JNum 4096))"
  "map_of (fireworksPayload b msgs) ''presence_penalty'' = Some (js_or (presence_penalty b) (JNum 0))"
  "map_of (fireworksPayload b msgs) ''frequency_penalty'' = Some (js_or (frequency_penalty b) (JNum 0))"
  "map_of (fireworksPayload b msgs) ''stream'' = Some (js_or (stream b) (JBool False))"
  by (simp_all add: fireworksPayload_def)

lemma payload_tools:
  "map_of (fireworksPayload b msgs) ''tools'' =
     (case tools b of None \<Rightarrow> None | Some ts \<Rightarrow> if ts = [] then None else Some (JArr ts))"
  "map_of (fireworksPayload b msgs) ''tool_choice'' \<noteq> None \<Longrightarrow>
     map_of (fireworksPayload b msgs) ''tools'' \<noteq> None"
  by (auto simp: fireworksPayload_def split: option.splits if_splits)

subsection \<open>The buffered branch\<close>

fun is_kv :: "call \<Rightarrow> bool" where
  "is_kv (KvSet k v) = True"
| "is_kv c = False"

fun is_mem0 :: "call \<Rightarrow> bool" where
  "is_mem0 (Mem0Add turns user) = True"
| "is_mem0 c = False"

definition chat_reply :: "string \<Rightarrow> upstream" where
  "chat_reply text =
     \<lparr>up_status = 200, up_text = Inr [],
      up_json = Inr (JObj [(''choices'',
                  JArr [JObj [(''message'', JObj [(''role'', JStr ''assistant''),
                                                 (''content'', JStr text)])]])]),
      up_body = None\<rparr>"

text \<open>
  The most recent user message, as the specification names it: the content of the last
  entry of \<^verbatim>\<open>messages\<close> whose role is "user".
\<close>

definition most_recent_user_message :: "jsval list \<Rightarrow> jsval" where
  "most_recent_user_message msgs =
     (case filter (\<lambda>m. get_prop m ''role'' = Inr (JStr ''user'')) msgs of
        [] \<Rightarrow> JUndefined
      | us \<Rightarrow> (case get_prop (last us) ''content'' of Inl e \<Rightarrow> JUndefined | Inr c \<Rightarrow> c))"

text \<open>
  Lines 181-198 run to their end: the reply content converts to a string and, when a
  reflection was extracted, the thread id converts too. Strings always do.
\<close>

definition persistence_completes :: "world \<Rightarrow> chat_body \<Rightarrow> jsval \<Rightarrow> bool" where
  "persistence_completes w b aiContent =
     (case reflections_of w aiContent of
        Inl e \<Rightarrow> False
      | Inr reflections \<Rightarrow>
          snd (snd (store_reflections w (js_or (currentThreadId b) (JStr ''unknown-thread''))
                      0 reflections)) = None)"

lemma store_reflections_end:
  "snd (snd (store_reflections w th k rs)) =
     (if rs = [] then None
      else case js_string (number_to_string w) th of Inl e \<Rightarrow> Some e | Inr t \<Rightarrow> None)"
  by (induction rs arbitrary: k) (simp_all add: Let_def split: sum.splits)

lemma store_reflections_calls:
  "snd (snd (store_reflections w th k rs)) = None \<Longrightarrow>
     length (fst (store_reflections w th k rs)) = length rs"
  "filter is_kv (fst (store_reflections w th k rs)) = fst (store_reflections w th k rs)"
  "filter is_mem0 (fst (store_reflections w th k rs)) = []"
  by (induction rs arbitrary: k) (simp_all add: Let_def split: sum.splits)

lemma store_reflections_any_kv:
  "fst (store_reflections (w\<lparr>kv_set := f\<rparr>) th k rs) = fst (store_reflections w th k rs)"
  "snd (snd (store_reflections (w\<lparr>kv_set := f\<rparr>) th k rs)) =
     snd (snd (store_reflections w th k rs))"
  by (induction rs arbitrary: k) (simp_all add: Let_def split: sum.splits)

lemma store_turn_calls:
  "fst (store_turn w th u a) =
     (if truthy u \<and> truthy a
      then [Mem0Add [(''user'', u), (''agent'', a)] (js_or th (JStr ''default-user''))] else [])"
  by (simp add: store_turn_def)

lemma parse_total: "\<exists>rs. parseReflectionsFromAIOutput s = Inr rs"
  by (simp add: parse_sections)

lemma reflections_of_text: "reflections_of w (JStr s) = parseReflectionsFromAIOutput s"
  by (simp add: reflections_of_def)

lemma reflections_of_any_kv: "reflections_of (w\<lparr>kv_set := f\<rparr>) a = reflections_of w a"
  by (simp add: reflections_of_def)

lemma strings_persist:
  assumes "currentThreadId b = JStr t \<or> \<not> truthy (currentThreadId b)"
  shows "persistence_completes w b (JStr s)"
proof -
  obtain rs where rs: "parseReflectionsFromAIOutput s = Inr rs"
    using parse_total by blast
  from assms obtain t' where "js_or (currentThreadId b) (JStr ''unknown-thread'') = JStr t'"
    by (cases "truthy (currentThreadId b)") (auto simp: js_or_def)
  then show ?thesis
    by (simp add: persistence_completes_def reflections_of_text rs store_reflections_end)
qed

lemma persistence_cases:
  "persistence_completes w b a =
     (\<exists>rs. reflections_of w a = Inr rs \<and>
           snd (snd (store_reflections w (js_or (currentThreadId b) (JStr ''unknown-thread''))
                       0 rs)) = None)"
  by (cases "reflections_of w a") (simp_all add: persistence_completes_def)

lemma handler_buffered:
  assumes "req_method req = ''POST''" "\<not> unset (FIREWORKS_API_KEY e)" "\<not> unset (MEM_API_KEY e)"
      and "body req = Some b" "truthy (model b)" "messages b = Some msgs" "\<not> truthy (stream b)"
  shows "handler e w req =
           Some (buffered w b msgs (upstream_call e b msgs) [Log ''Processing request:''])"
  using assms by (simp add: handler_def)

lemma handler_streaming:
  assumes "req_method req = ''POST''" "\<not> unset (FIREWORKS_API_KEY e)" "\<not> unset (MEM_API_KEY e)"
      and "body req = Some b" "truthy (model b)" "messages b = Some msgs" "truthy (stream b)"
  shows "handler e w req = streaming w (upstream_call e b msgs) [Log ''Processing request:'']"
  using assms by (simp add: handler_def)

text \<open>The buffered branch, once the reply was read and the reflections were stored.\<close>

lemma buffered_stored:
  assumes "fetch w c = Inr r" "ok r" "up_json r = Inr data" "aiResponseContent data = Inr a"
      and "reflections_of w a = Inr rs"
      and "snd (snd (store_reflections w (js_or (currentThreadId b) (JStr ''unknown-thread''))
                       0 rs)) = None"
  shows "buffered w b msgs c ls =
           (let stored = store_reflections w (js_or (currentThreadId b) (JStr ''unknown-thread''))
                           0 rs
            in case userMessageForMem0 msgs of
                 Inl e \<Rightarrow> internal_error cors e (Fetch c # fst stored) (ls @ fst (snd stored))
               | Inr u \<Rightarrow>
                   respond cors 200 (JsonBody data)
                     ((Fetch c # fst stored) @ fst (store_turn w (currentThreadId b) u a))
                     ((ls @ fst (snd stored)) @ snd (store_turn w (currentThreadId b) u a)))"
  using assms by (simp add: buffered_def Let_def split: sum.splits)

lemma buffered_completes:
  assumes "fetch w c = Inr r" "ok r" "up_json r = Inr data" "aiResponseContent data = Inr a"
      and "reflections_of w a = Inr rs"
      and "snd (snd (store_reflections w (js_or (currentThreadId b) (JStr ''unknown-thread''))
                       0 rs)) = None"
      and "userMessageForMem0 msgs = Inr u"
  shows "response (buffered w b msgs c ls) =
           \<lparr>res_headers = cors, res_status = 200, res_body = JsonBody data\<rparr>"
    and "calls (buffered w b msgs c ls) =
           Fetch c #
           fst (store_reflections w (js_or (currentThreadId b) (JStr ''unknown-thread'')) 0 rs) @
           fst (store_turn w (currentThreadId b) u a)"
  using assms(7) by (simp_all add: buffered_stored[OF assms(1-6)] respond_def Let_def)

lemma buffered_writes:
  assumes "fetch w c = Inr r" "ok r" "up_json r = Inr data" "aiResponseContent data = Inr a"
      and "reflections_of w a = Inr rs"
      and "snd (snd (store_reflections w (js_or (currentThreadId b) (JStr ''unknown-thread''))
                       0 rs)) = None"
  shows "length (filter is_kv (calls (buffered w b msgs c ls))) = length rs"
  using assms(6)
  by (cases "userMessageForMem0 msgs")
     (simp_all add: buffered_stored[OF assms] Let_def internal_error_def respond_def
        store_reflections_calls store_turn_calls)

text \<open>When lines 181-198 throw, the outer \<^verbatim>\<open>catch\<close> answers and the memory service is not called.\<close>

lemma buffered_stops:
  assumes "fetch w c = Inr r" "ok r" "up_json r = Inr data" "aiResponseContent data = Inr a"
      and "\<not> persistence_completes w b a"
  shows "\<exists>x. buffered w b msgs c ls =
               internal_error cors x
                 (Fetch c # fst (case reflections_of w a of
                                   Inl e \<Rightarrow> ([], [], None)
                                 | Inr rs \<Rightarrow> store_reflections w
                                     (js_or (currentThreadId b) (JStr ''unknown-thread'')) 0 rs))
                 (ls @ fst (snd (case reflections_of w a of
                                   Inl e \<Rightarrow> ([], [], None)
                                 | Inr rs \<Rightarrow> store_reflections w
                                     (js_or (currentThreadId b) (JStr ''unknown-thread'')) 0 rs)))"
proof (cases "reflections_of w a")
  case (Inl x)
  with assms(1-4) show ?thesis by (intro exI[of _ x]) (simp add: buffered_def)
next
  case (Inr rs)
  with assms(5) obtain x where
    "snd (snd (store_reflections w (js_or (currentThreadId b) (JStr ''unknown-thread'')) 0 rs)) =
       Some x"
    by (auto simp: persistence_completes_def)
  with assms(1-4) Inr show ?thesis by (intro exI[of _ x]) (simp add: buffered_def Let_def)
qed

lemma buffered_stops_calls:
  assumes "fetch w c = Inr r" "ok r" "up_json r = Inr data" "aiResponseContent data = Inr a"
      and "\<not> persistence_completes w b a"
  shows "filter is_mem0 (calls (buffered w b msgs c ls)) = []"
proof -
  from buffered_stops[OF assms, of msgs ls] obtain x cs ls' where
    b: "buffered w b msgs c ls = internal_error cors x (Fetch c # fst cs) ls'"
       "cs = (case reflections_of w a of
                Inl e \<Rightarrow> ([], [], None)
              | Inr rs \<Rightarrow> store_reflections w
                  (js_or (currentThreadId b) (JStr ''unknown-thread'')) 0 rs)"
    by blast
  have "filter is_mem0 (fst cs) = []"
    unfolding b(2) by (cases "reflections_of w a") (simp_all add: store_reflections_calls)
  with b(1) show ?thesis by (simp add: internal_error_def respond_def)
qed

text \<open>What the key-value store does with a write changes neither the response nor the calls.\<close>

lemma buffered_any_kv:
  "response (buffered (w\<lparr>kv_set := f\<rparr>) b msgs c ls) = response (buffered w b msgs c ls)"
  "calls (buffered (w\<lparr>kv_set := f\<rparr>) b msgs c ls) = calls (buffered w b msgs c ls)"
  by (simp_all add: buffered_def Let_def reflections_of_any_kv store_reflections_any_kv
        store_turn_calls internal_error_def relay_failure_def respond_def
      split: sum.splits option.splits)

lemma last_message_read:
  "msgs \<noteq> [] \<Longrightarrow> userMessageForMem0 msgs = get_prop (last msgs) ''content''"
  by (simp add: userMessageForMem0_def)

lemma no_last_message:
  "userMessageForMem0 [] =
     Inl (TypeError ''Cannot read properties of undefined (reading 'content')'')"
  by (simp add: userMessageForMem0_def)

text \<open>
  C10. A buffered request whose \<^verbatim>\<open>messages\<close> is the empty list passes the validation (the
  call to the provider is made, no 400); when the provider answers with success, the
  handler ends in the outer \<^verbatim>\<open>catch\<close> and responds 500 "Internal server error". When the
  reply is JSON that can be read and its reflections were stored, the error is the
  \<^verbatim>\<open>TypeError\<close> of reading \<^verbatim>\<open>content\<close> of the missing last message.
\<close>

theorem empty_messages_is_500:
  assumes post: "req_method req = ''POST''"
      and keys: "\<not> unset (FIREWORKS_API_KEY e)" "\<not> unset (MEM_API_KEY e)"
      and body: "body req = Some b" "truthy (model b)" "messages b = Some []"
                "\<not> truthy (stream b)"
      and reply: "fetch w (upstream_call e b []) = Inr r" "ok r"
  shows "\<exists>out msg. handler e w req = Some out \<and> res_status (response out) = 500 \<and>
           res_body (response out) = JsonBody (error_json ''Internal server error'' msg) \<and>
           hd (calls out) = Fetch (upstream_call e b []) \<and>
           (\<forall>data a. up_json r = Inr data \<longrightarrow> aiResponseContent data = Inr a \<longrightarrow>
              persistence_completes w b a \<longrightarrow>
              Inl (TypeError msg) = userMessageForMem0 [])"
proof -
  let ?c = "upstream_call e b []"
  let ?ls = "[Log ''Processing request:'']"
  have h: "handler e w req = Some (buffered w b [] ?c ?ls)"
    using post keys body by (rule handler_buffered)
  show ?thesis
  proof (cases "up_json r")
    case (Inl x)
    with reply have "buffered w b [] ?c ?ls = internal_error cors x [Fetch ?c] ?ls"
      by (simp add: buffered_def)
    with h Inl show ?thesis
      by (intro exI[of _ "internal_error cors x [Fetch ?c] ?ls"] exI[of _ "message x"])
         (simp add: internal_error_def respond_def)
  next
    case (Inr data)
    show ?thesis
    proof (cases "aiResponseContent data")
      case (Inl x)
      with reply Inr have "buffered w b [] ?c ?ls = internal_error cors x [Fetch ?c] ?ls"
        by (simp add: buffered_def)
      with h Inr Inl show ?thesis
        by (intro exI[of _ "internal_error cors x [Fetch ?c] ?ls"] exI[of _ "message x"])
           (simp add: internal_error_def respond_def)
    next
      case a: (Inr a)
      show ?thesis
      proof (cases "persistence_completes w b a")
        case False
        from buffered_stops[OF reply Inr a False, of "[]" ?ls] obtain x cs ls' where
          "buffered w b [] ?c ?ls = internal_error cors x (Fetch ?c # cs) ls'"
          by blast
        with h Inr a False show ?thesis
          by (intro exI[of _ "internal_error cors x (Fetch ?c # cs) ls'"] exI[of _ "message x"])
             (simp add: internal_error_def respond_def)
      next
        case True
        then obtain rs where rs: "reflections_of w a = Inr rs"
          "snd (snd (store_reflections w (js_or (currentThreadId b) (JStr ''unknown-thread''))
                       0 rs)) = None"
          by (auto simp: persistence_cases)
        let ?st = "store_reflections w (js_or (currentThreadId b) (JStr ''unknown-thread'')) 0 rs"
        let ?e = "TypeError ''Cannot read properties of undefined (reading 'content')''"
        have "buffered w b [] ?c ?ls =
                internal_error cors ?e (Fetch ?c # fst ?st) (?ls @ fst (snd ?st))"
          by (simp add: buffered_stored[OF reply Inr a rs] no_last_message Let_def)
        with h no_last_message show ?thesis
          by (intro exI[of _ "internal_error cors ?e (Fetch ?c # fst ?st) (?ls @ fst (snd ?st))"]
                    exI[of _ "message ?e"])
             (simp add: internal_error_def respond_def)
      qed
    qed
  qed
qed

theorem empty_messages_is_500_witness:
  "\<exists>out. handler sample_env (answering (chat_reply ''fine''))
            (post (sample_body\<lparr>messages := Some []\<rparr>)) = Some out \<and>
     res_status (response out) = 500 \<and>
     res_body (response out) =
       JsonBody (error_json ''Internal server error''
                   ''Cannot read properties of undefined (reading 'content')'')"
proof -
  let ?b = "sample_body\<lparr>messages := Some []\<rparr>"
  let ?w = "answering (chat_reply ''fine'')"
  have 1: "req_method (post ?b) = ''POST''" by (simp add: post_def)
  have 2: "\<not> unset (FIREWORKS_API_KEY sample_env)" by (simp add: sample_env_def unset_def)
  have 3: "\<not> unset (MEM_API_KEY sample_env)" by (simp add: sample_env_def unset_def)
  have 4: "body (post ?b) = Some ?b" by (simp add: post_def)
  have 5: "truthy (model ?b)" by (simp add: sample_body_def)
  have 6: "messages ?b = Some []" by simp
  have 7: "\<not> truthy (stream ?b)" by (simp add: sample_body_def)
  have 8: "fetch ?w (upstream_call sample_env ?b []) = Inr (chat_reply ''fine'')"
    by (simp add: answering_def)
  have 9: "ok (chat_reply ''fine'')" by (simp add: ok_def chat_reply_def)
  have j: "up_json (chat_reply ''fine'') =
             Inr (JObj [(''choices'',
                  JArr [JObj [(''message'', JObj [(''role'', JStr ''assistant''),
                                                 (''content'', JStr ''fine'')])]])])"
    by (simp add: chat_reply_def)
  have a: "aiResponseContent (JObj [(''choices'',
                  JArr [JObj [(''message'', JObj [(''role'', JStr ''assistant''),
                                                 (''content'', JStr ''fine'')])]])]) =
             Inr (JStr ''fine'')"
    by (simp add: aiResponseContent_def)
  have p: "persistence_completes ?w ?b (JStr ''fine'')"
    by (rule strings_persist[of _ "[]"]) (simp add: sample_body_def)
  from empty_messages_is_500[OF 1 2 3 4 5 6 7 8 9] obtain out msg where
    o: "handler sample_env ?w (post ?b) = Some out" "res_status (response out) = 500"
       "res_body (response out) = JsonBody (error_json ''Internal server error'' msg)"
       "\<forall>data a. up_json (chat_reply ''fine'') = Inr data \<longrightarrow> aiResponseContent data = Inr a \<longrightarrow>
              persistence_completes ?w ?b a \<longrightarrow>
              Inl (TypeError msg) = userMessageForMem0 []"
    by blast
  from o(4) j a p have "Inl (TypeError msg) = userMessageForMem0 []" by blast
  then have "msg = ''Cannot read properties of undefined (reading 'content')''"
    by (simp add: userMessageForMem0_def)
  with o show ?thesis by blast
qed


definition two_turns :: "jsval list" where
  "two_turns = [JObj [(''role'', JStr ''user''), (''content'', JStr ''hi'')],
                JObj [(''role'', JStr ''assistant''), (''content'', JStr ''prefill'')]]"

text \<open>
  C7, as stated: the write submits the single most recent user message. On a conversation
  that ends with an assistant message the handler submits that last message as the
  user's.
\<close>

theorem last_message_counterexample:
  "(\<exists>out. handler sample_env (answering (chat_reply ''yo''))
             (post (sample_body\<lparr>messages := Some two_turns\<rparr>)) = Some out \<and>
      filter is_mem0 (calls out) =
        [Mem0Add [(''user'', JStr ''prefill''), (''agent'', JStr ''yo'')] (JStr ''default-user'')]) \<and>
   most_recent_user_message two_turns = JStr ''hi''"
proof -
  let ?b = "sample_body\<lparr>messages := Some two_turns\<rparr>"
  let ?w = "answering (chat_reply ''yo'')"
  let ?c = "upstream_call sample_env ?b two_turns"
  let ?ls = "[Log ''Processing request:'']"
  have h: "handler sample_env ?w (post ?b) = Some (buffered ?w ?b two_turns ?c ?ls)"
    by (rule handler_buffered) (simp_all add: sample_defs unset_def)
  have "persistence_completes ?w ?b (JStr ''yo'')"
    by (rule strings_persist[of _ "[]"]) (simp add: sample_body_def)
  then obtain rs where rs: "reflections_of ?w (JStr ''yo'') = Inr rs"
    "snd (snd (store_reflections ?w (js_or (currentThreadId ?b) (JStr ''unknown-thread''))
                 0 rs)) = None"
    by (auto simp: persistence_cases)
  have c: "calls (buffered ?w ?b two_turns ?c ?ls) =
             Fetch ?c #
             fst (store_reflections ?w (js_or (currentThreadId ?b) (JStr ''unknown-thread'')) 0 rs) @
             fst (store_turn ?w (currentThreadId ?b) (JStr ''prefill'') (JStr ''yo''))"
  proof (rule buffered_completes(2)[OF _ _ _ _ rs])
    show "fetch ?w ?c = Inr (chat_reply ''yo'')" by (simp add: answering_def)
    show "ok (chat_reply ''yo'')" by (simp add: ok_def chat_reply_def)
    show "up_json (chat_reply ''yo'') =
            Inr (JObj [(''choices'',
                  JArr [JObj [(''message'', JObj [(''role'', JStr ''assistant''),
                                                 (''content'', JStr ''yo'')])]])])"
      by (simp add: chat_reply_def)
    show "aiResponseContent (JObj [(''choices'',
                  JArr [JObj [(''message'', JObj [(''role'', JStr ''assistant''),
                                                 (''content'', JStr ''yo'')])]])]) = Inr (JStr ''yo'')"
      by (simp add: aiResponseContent_def)
    show "userMessageForMem0 two_turns = Inr (JStr ''prefill'')"
      by (simp add: userMessageForMem0_def two_turns_def)
  qed
  have "filter is_mem0 (calls (buffered ?w ?b two_turns ?c ?ls)) =
          [Mem0Add [(''user'', JStr ''prefill''), (''agent'', JStr ''yo'')] (JStr ''default-user'')]"
    unfolding c by (simp add: store_reflections_calls store_turn_calls js_or_def sample_body_def)
  moreover have "most_recent_user_message two_turns = JStr ''hi''"
    by (simp add: most_recent_user_message_def two_turns_def)
  ultimately show ?thesis using h by blast
qed

text \<open>
  C7, amended. For a buffered request with a successful upstream response, the handler
  makes exactly one memory-service write when the content of the last entry of
  \<^verbatim>\<open>messages\<close> (which the code takes to be the user's message) and the assistant's
  reply are both non-empty and the reflections of the reply were stored (as they are
  whenever the reply and the thread id are strings), and none otherwise; the write has
  two entries, that content as the user's and the raw reply as the agent's, tagged with
  the caller's \<^verbatim>\<open>currentThreadId\<close>, or with "default-user" when it is absent.
\<close>

theorem memory_write:
  assumes post: "req_method req = ''POST''"
      and keys: "\<not> unset (FIREWORKS_API_KEY e)" "\<not> unset (MEM_API_KEY e)"
      and body: "body req = Some b" "truthy (model b)" "messages b = Some msgs"
                "\<not> truthy (stream b)"
      and reply: "fetch w (upstream_call e b msgs) = Inr r" "ok r" "up_json r = Inr data"
                 "aiResponseContent data = Inr a"
      and last: "msgs \<noteq> []" "get_prop (last msgs) ''content'' = Inr u"
  shows "\<exists>out. handler e w req = Some out \<and>
           filter is_mem0 (calls out) =
             (if truthy u \<and> truthy a \<and> persistence_completes w b a
              then [Mem0Add [(''user'', u), (''agent'', a)]
                            (js_or (currentThreadId b) (JStr ''default-user''))]
              else [])"
proof -
  let ?c = "upstream_call e b msgs"
  let ?ls = "[Log ''Processing request:'']"
  have h: "handler e w req = Some (buffered w b msgs ?c ?ls)"
    using post keys body by (rule handler_buffered)
  from last have um: "userMessageForMem0 msgs = Inr u" by (simp add: last_message_read)
  have "filter is_mem0 (calls (buffered w b msgs ?c ?ls)) =
          (if truthy u \<and> truthy a \<and> persistence_completes w b a
           then [Mem0Add [(''user'', u), (''agent'', a)]
                         (js_or (currentThreadId b) (JStr ''default-user''))]
           else [])"
  proof (cases "persistence_completes w b a")
    case False
    with buffered_stops_calls[OF reply False] show ?thesis by simp
  next
    case True
    then obtain rs where rs: "reflections_of w a = Inr rs"
      "snd (snd (store_reflections w (js_or (currentThreadId b) (JStr ''unknown-thread''))
                   0 rs)) = None"
      by (auto simp: persistence_cases)
    have "calls (buffered w b msgs ?c ?ls) =
            Fetch ?c #
            fst (store_reflections w (js_or (currentThreadId b) (JStr ''unknown-thread'')) 0 rs) @
            fst (store_turn w (currentThreadId b) u a)"
      using reply rs um by (rule buffered_completes(2))
    with True show ?thesis
      by (simp add: store_reflections_calls store_turn_calls)
  qed
  with h show ?thesis by blast
qed

theorem memory_write_witness:
  "\<exists>out. handler sample_env (answering (chat_reply ''Reflection: I learned X.''))
            (post (sample_body\<lparr>currentThreadId := JStr ''thread-7''\<rparr>)) = Some out \<and>
     filter is_mem0 (calls out) =
       [Mem0Add [(''user'', JStr ''hello''), (''agent'', JStr ''Reflection: I learned X.'')]
                (JStr ''thread-7'')]"
proof -
  let ?b = "sample_body\<lparr>currentThreadId := JStr ''thread-7''\<rparr>"
  let ?msgs = "[JObj [(''role'', JStr ''user''), (''content'', JStr ''hello'')]]"
  let ?r = "chat_reply ''Reflection: I learned X.''"
  let ?data = "JObj [(''choices'',
                  JArr [JObj [(''message'', JObj [(''role'', JStr ''assistant''),
                          (''content'', JStr ''Reflection: I learned X.'')])]])]"
  have 1: "req_method (post ?b) = ''POST''" by (simp add: post_def)
  have 2: "\<not> unset (FIREWORKS_API_KEY sample_env)" by (simp add: sample_env_def unset_def)
  have 3: "\<not> unset (MEM_API_KEY sample_env)" by (simp add: sample_env_def unset_def)
  have 4: "body (post ?b) = Some ?b" by (simp add: post_def)
  have 5: "truthy (model ?b)" by (simp add: sample_body_def)
  have 6: "messages ?b = Some ?msgs" by (simp add: sample_body_def)
  have 7: "\<not> truthy (stream ?b)" by (simp add: sample_body_def)
  have 8: "fetch (answering ?r) (upstream_call sample_env ?b ?msgs) = Inr ?r"
    by (simp add: answering_def)
  have 9: "ok ?r" by (simp add: ok_def chat_reply_def)
  have 10: "up_json ?r = Inr ?data" by (simp add: chat_reply_def)
  have 11: "aiResponseContent ?data = Inr (JStr ''Reflection: I learned X.'')"
    by (simp add: aiResponseContent_def)
  have 12: "?msgs \<noteq> []" by simp
  have 13: "get_prop (last ?msgs) ''content'' = Inr (JStr ''hello'')" by simp
  have p: "persistence_completes (answering ?r) ?b (JStr ''Reflection: I learned X.'')"
    by (rule strings_persist[of _ "''thread-7''"]) simp
  from memory_write[OF 1 2 3 4 5 6 7 8 9 10 11 12 13] p
  show ?thesis by (simp add: js_or_def)
qed

text \<open>
  A reply whose content is not a string is converted before the patterns run: from the
  content \<^verbatim>\<open>["Reflection: hi"]\<close> one reflection is extracted.
\<close>

lemma reflections_of_array:
  "reflections_of w (JArr [JStr ''Reflection: hi'']) =
     Inr [\<lparr>type = ''BRIEF REFLECTION'', content = ''hi''\<rparr>]"
proof -
  have "detailed_sections True ''Reflection: hi'' @ brief_section True ''Reflection: hi'' =
          [\<lparr>type = ''BRIEF REFLECTION'', content = ''hi''\<rparr>]"
    by code_simp
  then show ?thesis
    by (simp add: reflections_of_def parse_sections)
qed

text \<open>
  C8, as stated: whenever a key-value write throws, the handler still returns 200. On a
  request whose \<^verbatim>\<open>messages\<close> is empty the write of the reflection is made and throws, and
  the handler then answers 500: the failure is absorbed, but the request fails at
  line 201.
\<close>

theorem kv_failure_counterexample:
  "\<exists>out. handler sample_env
            ((answering (chat_reply ''Reflection: I learned X.''))
               \<lparr>kv_set := (\<lambda>n. Some (Rejected ''KV unavailable''))\<rparr>)
            (post (sample_body\<lparr>messages := Some []\<rparr>)) = Some out \<and>
     length (filter is_kv (calls out)) = 1 \<and>
     res_status (response out) = 500"
proof -
  let ?b = "sample_body\<lparr>messages := Some []\<rparr>"
  let ?r = "chat_reply ''Reflection: I learned X.''"
  let ?w = "(answering ?r)\<lparr>kv_set := (\<lambda>n. Some (Rejected ''KV unavailable''))\<rparr>"
  let ?c = "upstream_call sample_env ?b []"
  let ?ls = "[Log ''Processing request:'']"
  let ?data = "JObj [(''choices'',
                  JArr [JObj [(''message'', JObj [(''role'', JStr ''assistant''),
                          (''content'', JStr ''Reflection: I learned X.'')])]])]"
  let ?rs = "[\<lparr>type = ''BRIEF REFLECTION'', content = ''I learned X.''\<rparr>]"
  let ?st = "store_reflections ?w (js_or (currentThreadId ?b) (JStr ''unknown-thread'')) 0 ?rs"
  have h: "handler sample_env ?w (post ?b) = Some (buffered ?w ?b [] ?c ?ls)"
    by (rule handler_buffered) (simp_all add: sample_defs unset_def)
  have 1: "fetch ?w ?c = Inr ?r" by (simp add: answering_def)
  have 2: "ok ?r" by (simp add: ok_def chat_reply_def)
  have 3: "up_json ?r = Inr ?data" by (simp add: chat_reply_def)
  have 4: "aiResponseContent ?data = Inr (JStr ''Reflection: I learned X.'')"
    by (simp add: aiResponseContent_def)
  have "detailed_sections True ''Reflection: I learned X.'' @
        brief_section True ''Reflection: I learned X.'' = ?rs"
    by code_simp
  then have 5: "reflections_of ?w (JStr ''Reflection: I learned X.'') = Inr ?rs"
    by (simp add: reflections_of_text parse_sections)
  have 6: "snd (snd ?st) = None"
    by (simp add: store_reflections_end js_or_def sample_body_def)
  have "buffered ?w ?b [] ?c ?ls =
          internal_error cors (TypeError ''Cannot read properties of undefined (reading 'content')'')
            (Fetch ?c # fst ?st) (?ls @ fst (snd ?st))"
    by (simp add: buffered_stored[OF 1 2 3 4 5 6] no_last_message Let_def)
  moreover have "length (filter is_kv (calls (buffered ?w ?b [] ?c ?ls))) = length ?rs"
    using 1 2 3 4 5 6 by (rule buffered_writes)
  ultimately show ?thesis
    using h by (simp add: internal_error_def respond_def)
qed

text \<open>
  C8, amended. For a buffered request with a successful upstream response, whatever the
  key-value store does with each write (any of them may throw), the response and the
  calls made are the same as when no write fails. When the reflections of the reply
  were stored (as they are whenever the reply and the thread id are strings), every
  extracted reflection got its write; and when moreover the last message can be read,
  the handler returns status 200 with the upstream JSON body unchanged.
\<close>

theorem kv_failure_is_absorbed:
  assumes post: "req_method req = ''POST''"
      and keys: "\<not> unset (FIREWORKS_API_KEY e)" "\<not> unset (MEM_API_KEY e)"
      and body: "body req = Some b" "truthy (model b)" "messages b = Some msgs"
                "\<not> truthy (stream b)"
      and reply: "fetch w (upstream_call e b msgs) = Inr r" "ok r" "up_json r = Inr data"
  shows "\<exists>out out'. handler e (w\<lparr>kv_set := failing\<rparr>) req = Some out \<and>
           handler e (w\<lparr>kv_set := (\<lambda>n. None)\<rparr>) req = Some out' \<and>
           response out = response out' \<and> calls out = calls out' \<and>
           (\<forall>a rs. aiResponseContent data = Inr a \<longrightarrow> reflections_of w a = Inr rs \<longrightarrow>
              persistence_completes w b a \<longrightarrow>
              length (filter is_kv (calls out)) = length rs \<and>
              (\<forall>u. msgs \<noteq> [] \<longrightarrow> get_prop (last msgs) ''content'' = Inr u \<longrightarrow>
                 res_status (response out) = 200 \<and> res_body (response out) = JsonBody data))"
proof -
  let ?c = "upstream_call e b msgs"
  let ?ls = "[Log ''Processing request:'']"
  let ?th = "js_or (currentThreadId b) (JStr ''unknown-thread'')"
  let ?out = "buffered (w\<lparr>kv_set := failing\<rparr>) b msgs ?c ?ls"
  let ?out' = "buffered (w\<lparr>kv_set := (\<lambda>n. None)\<rparr>) b msgs ?c ?ls"
  have run: "handler e (w\<lparr>kv_set := f\<rparr>) req = Some (buffered (w\<lparr>kv_set := f\<rparr>) b msgs ?c ?ls)"
    for f
    using post keys body by (rule handler_buffered)
  have same: "response ?out = response ?out'" "calls ?out = calls ?out'"
    by (simp_all add: buffered_any_kv)
  have stored: "length (filter is_kv (calls ?out)) = length rs \<and>
                (\<forall>u. msgs \<noteq> [] \<longrightarrow> get_prop (last msgs) ''content'' = Inr u \<longrightarrow>
                   res_status (response ?out) = 200 \<and> res_body (response ?out) = JsonBody data)"
    if a: "aiResponseContent data = Inr a" and rs: "reflections_of w a = Inr rs"
      and p: "persistence_completes w b a" for a rs
  proof -
    from p rs have s: "snd (snd (store_reflections w ?th 0 rs)) = None"
      by (simp add: persistence_completes_def)
    have "length (filter is_kv (calls (buffered w b msgs ?c ?ls))) = length rs"
      using reply a rs s by (rule buffered_writes)
    moreover have "res_status (response (buffered w b msgs ?c ?ls)) = 200 \<and>
                   res_body (response (buffered w b msgs ?c ?ls)) = JsonBody data"
      if "msgs \<noteq> []" "get_prop (last msgs) ''content'' = Inr u" for u
    proof -
      from that have "userMessageForMem0 msgs = Inr u" by (simp add: last_message_read)
      with reply a rs s have "response (buffered w b msgs ?c ?ls) =
          \<lparr>res_headers = cors, res_status = 200, res_body = JsonBody data\<rparr>"
        by (rule buffered_completes(1))
      then show ?thesis by simp
    qed
    ultimately show ?thesis by (simp add: buffered_any_kv)
  qed
  show ?thesis
    using run[of failing] run[of "\<lambda>n. None"] same stored
    by (intro exI[of _ ?out] exI[of _ ?out']) blast
qed

theorem kv_failure_is_absorbed_witness:
  "\<exists>out. handler sample_env
            ((answering (chat_reply ''Reflection: I learned X.''))
               \<lparr>kv_set := (\<lambda>n. Some (Rejected ''KV unavailable''))\<rparr>)
            (post sample_body) = Some out \<and>
     res_status (response out) = 200 \<and>
     res_body (response out) =
       JsonBody (JObj [(''choices'',
                  JArr [JObj [(''message'', JObj [(''role'', JStr ''assistant''),
                          (''content'', JStr ''Reflection: I learned X.'')])]])]) \<and>
     length (filter is_kv (calls out)) = 1"
proof -
  let ?msgs = "[JObj [(''role'', JStr ''user''), (''content'', JStr ''hello'')]]"
  let ?r = "chat_reply ''Reflection: I learned X.''"
  let ?data = "JObj [(''choices'',
                  JArr [JObj [(''message'', JObj [(''role'', JStr ''assistant''),
                          (''content'', JStr ''Reflection: I learned X.'')])]])]"
  have 1: "req_method (post sample_body) = ''POST''" by (simp add: post_def)
  have 2: "\<not> unset (FIREWORKS_API_KEY sample_env)" by (simp add: sample_env_def unset_def)
  have 3: "\<not> unset (MEM_API_KEY sample_env)" by (simp add: sample_env_def unset_def)
  have 4: "body (post sample_body) = Some sample_body" by (simp add: post_def)
  have 5: "truthy (model sample_body)" by (simp add: sample_body_def)
  have 6: "messages sample_body = Some ?msgs" by (simp add: sample_body_def)
  have 7: "\<not> truthy (stream sample_body)" by (simp add: sample_body_def)
  have 8: "fetch (answering ?r) (upstream_call sample_env sample_body ?msgs) = Inr ?r"
    by (simp add: answering_def)
  have 9: "ok ?r" by (simp add: ok_def chat_reply_def)
  have 10: "up_json ?r = Inr ?data" by (simp add: chat_reply_def)
  have 11: "aiResponseContent ?data = Inr (JStr ''Reflection: I learned X.'')"
    by (simp add: aiResponseContent_def)
  have 12: "?msgs \<noteq> []" by simp
  have 13: "get_prop (last ?msgs) ''content'' = Inr (JStr ''hello'')" by simp
  have "detailed_sections True ''Reflection: I learned X.'' @
        brief_section True ''Reflection: I learned X.'' =
          [\<lparr>type = ''BRIEF REFLECTION'', content = ''I learned X.''\<rparr>]"
    by code_simp
  then have 14: "reflections_of (answering ?r) (JStr ''Reflection: I learned X.'') =
          Inr [\<lparr>type = ''BRIEF REFLECTION'', content = ''I learned X.''\<rparr>]"
    by (simp add: reflections_of_text parse_sections)
  have 15: "persistence_completes (answering ?r) sample_body (JStr ''Reflection: I learned X.'')"
    by (rule strings_persist[of _ "[]"]) (simp add: sample_body_def)
  from kv_failure_is_absorbed[OF 1 2 3 4 5 6 7 8 9 10,
         of "\<lambda>n. Some (Rejected ''KV unavailable'')"]
  obtain out where
    o: "handler sample_env ((answering ?r)\<lparr>kv_set := (\<lambda>n. Some (Rejected ''KV unavailable''))\<rparr>)
          (post sample_body) = Some out"
       "\<forall>a rs. aiResponseContent ?data = Inr a \<longrightarrow> reflections_of (answering ?r) a = Inr rs \<longrightarrow>
              persistence_completes (answering ?r) sample_body a \<longrightarrow>
              length (filter is_kv (calls out)) = length rs \<and>
              (\<forall>u. ?msgs \<noteq> [] \<longrightarrow> get_prop (last ?msgs) ''content'' = Inr u \<longrightarrow>
                 res_status (response out) = 200 \<and> res_body (response out) = JsonBody ?data)"
    by blast
  from o(2) 11 14 15 have
    "length (filter is_kv (calls out)) =
       length [\<lparr>type = ''BRIEF REFLECTION'', content = ''I learned X.''\<rparr>]"
    "\<forall>u. ?msgs \<noteq> [] \<longrightarrow> get_prop (last ?msgs) ''content'' = Inr u \<longrightarrow>
         res_status (response out) = 200 \<and> res_body (response out) = JsonBody ?data"
    by blast+
  with 12 13 have "length (filter is_kv (calls out)) = 1"
    "res_status (response out) = 200" "res_body (response out) = JsonBody ?data"
    by simp_all
  with o(1) show ?thesis by blast
qed

subsection \<open>The streaming branch\<close>

text \<open>
  What the read loop writes for a list of chunks: for each chunk, in order, the UTF-8
  encoding of what the decoder makes of it in the state the chunks before left.
\<close>

fun relayed :: "text_decoder \<Rightarrow> byte list list \<Rightarrow> byte list list" where
  "relayed d [] = []"
| "relayed d (v # vs) = utf8_encode (snd (decode d v)) # relayed (fst (decode d v)) vs"

definition stream_reply :: "(nat \<Rightarrow> read_result) \<Rightarrow> upstream" where
  "stream_reply read = \<lparr>up_status = 200, up_text = Inr [], up_json = Inl (Rejected ''not JSON''),
                         up_body = Some read\<rparr>"

lemma pump_ends:
  "(\<And>i. i < length vs \<Longrightarrow> read (n + i) = Chunk (vs ! i)) \<Longrightarrow> read (n + length vs) = Done \<Longrightarrow>
     pump read n d written = Some (written @ relayed d vs, [])"
proof (induction vs arbitrary: n d written)
  case Nil
  then show ?case by (subst pump.simps) simp
next
  case (Cons v vs)
  from Cons.prems(1)[of 0] have r: "read n = Chunk v" by simp
  have "pump read (Suc n) (fst (decode d v)) (written @ [utf8_encode (snd (decode d v))]) =
          Some ((written @ [utf8_encode (snd (decode d v))]) @ relayed (fst (decode d v)) vs, [])"
  proof (rule Cons.IH)
    fix i assume "i < length vs"
    with Cons.prems(1)[of "Suc i"] show "read (Suc n + i) = Chunk (vs ! i)" by simp
  next
    from Cons.prems(2) show "read (Suc n + length vs) = Done" by simp
  qed
  with r show ?case by (subst pump.simps) simp
qed

lemma relayed_length: "length (relayed d vs) = length vs"
  by (induction vs arbitrary: d) simp_all

lemma ascii_run:
  assumes "bytes_needed d = 0" "\<forall>x\<in>set v. x < 0x80"
  shows "snd (utf8_run d v) = map unat v \<and> bytes_needed (fst (utf8_run d v)) = 0"
  using assms
proof (induction v arbitrary: d)
  case Nil
  then show ?case by simp
next
  case (Cons x v)
  from Cons.prems(2) have "x < 0x80" by simp
  then have "unat x \<le> 0x7F" by (simp add: word_less_nat_alt)
  with Cons.prems(1) have step: "utf8_step d (unat x) = (fresh, [unat x])"
    by (simp add: utf8_step_def lead_byte_def)
  have "bytes_needed fresh = 0" by (simp add: fresh_def)
  from Cons.IH[OF this] Cons.prems(2) step show ?case by (simp add: Let_def)
qed

lemma encode_ascii:
  "\<forall>x\<in>set v. x < 0x80 \<Longrightarrow> utf8_encode (map unat v) = v"
proof (induction v)
  case Nil
  show ?case by (simp add: utf8_encode_def)
next
  case (Cons x v)
  from Cons.prems have "unat x < 0x80" by (simp add: word_less_nat_alt)
  then have "encode_code_point (unat x) = [x]" by (simp add: encode_code_point_def)
  with Cons show ?case by (simp add: utf8_encode_def)
qed

lemma ascii_decode:
  assumes "bytes_needed (utf8 d) = 0" "\<forall>x\<in>set v. x < 0x80"
  shows "utf8_encode (snd (decode d v)) = v \<and> bytes_needed (utf8 (fst (decode d v))) = 0"
proof -
  from ascii_run[OF assms] have run: "snd (utf8_run (utf8 d) v) = map unat v"
    "bytes_needed (fst (utf8_run (utf8 d) v)) = 0" by simp_all
  have nobom: "v \<noteq> [] \<Longrightarrow> hd (map unat v) \<noteq> 0xFEFF"
  proof -
    assume "v \<noteq> []"
    then have "hd v \<in> set v" by simp
    with assms(2) have "unat (hd v) < 0x80" by (simp add: word_less_nat_alt)
    with \<open>v \<noteq> []\<close> show ?thesis by (simp add: hd_map)
  qed
  from run nobom encode_ascii[OF assms(2)] show ?thesis
    by (auto simp: decode_def Let_def)
qed

lemma relayed_ascii:
  "bytes_needed (utf8 d) = 0 \<Longrightarrow> \<forall>v\<in>set vs. \<forall>x\<in>set v. x < 0x80 \<Longrightarrow> relayed d vs = vs"
proof (induction vs arbitrary: d)
  case Nil
  show ?case by simp
next
  case (Cons v vs)
  from Cons.prems have "\<forall>x\<in>set v. x < 0x80" by simp
  from ascii_decode[OF Cons.prems(1) this] Cons show ?case by simp
qed

text \<open>
  C9, as stated: the chunks are relayed byte for byte. A chunk that holds the byte FF,
  which is not UTF-8, is written as the three bytes of U+FFFD.
\<close>

theorem stream_bytes_counterexample:
  "\<exists>out. handler sample_env (answering (stream_reply (\<lambda>n. if n = 0 then Chunk [0xFF] else Done)))
            (post (sample_body\<lparr>stream := JBool True\<rparr>)) = Some out \<and>
     res_body (response out) = StreamBody [[0xEF, 0xBF, 0xBD]]"
proof -
  let ?read = "\<lambda>n::nat. if n = 0 then Chunk [0xFF] else Done"
  let ?b = "sample_body\<lparr>stream := JBool True\<rparr>"
  let ?msgs = "[JObj [(''role'', JStr ''user''), (''content'', JStr ''hello'')]]"
  let ?c = "upstream_call sample_env ?b ?msgs"
  have h: "handler sample_env (answering (stream_reply ?read)) (post ?b) =
             streaming (answering (stream_reply ?read)) ?c [Log ''Processing request:'']"
    by (rule handler_streaming) (simp_all add: sample_defs unset_def)
  have r: "relayed new_decoder [[0xFF]] = [[0xEF, 0xBF, 0xBD]]"
    by (simp add: decode_def utf8_step_def lead_byte_def utf8_encode_def encode_code_point_def
                  new_decoder_def fresh_def Let_def)
  have "pump ?read 0 new_decoder [] = Some ([] @ relayed new_decoder [[0xFF]], [])"
    by (rule pump_ends) simp_all
  then have p: "pump ?read 0 new_decoder [] = Some ([[0xEF, 0xBF, 0xBD]], [])"
    unfolding r by simp
  show ?thesis
    unfolding h
    by (simp add: streaming_def answering_def stream_reply_def ok_def p respond_def)
qed

text \<open>
  C9, amended. For a streaming request with a successful upstream response whose stream
  ends, the handler writes, for each upstream chunk in order, the UTF-8 encoding of
  the chunk's text as a streaming UTF-8 decoder reads it, one write per chunk, until the
  stream ends; chunks of ASCII bytes are written byte for byte. The call to the
  provider is the only call: no key-value write, no memory-service write.
\<close>

theorem stream_is_relayed:
  assumes post: "req_method req = ''POST''"
      and keys: "\<not> unset (FIREWORKS_API_KEY e)" "\<not> unset (MEM_API_KEY e)"
      and body: "body req = Some b" "truthy (model b)" "messages b = Some msgs"
                "truthy (stream b)"
      and reply: "fetch w (upstream_call e b msgs) = Inr r" "ok r" "up_body r = Some read"
      and chunks: "\<forall>i<length vs. read i = Chunk (vs ! i)" "read (length vs) = Done"
  shows "\<exists>out. handler e w req = Some out \<and> res_status (response out) = 200 \<and>
           res_body (response out) = StreamBody (relayed new_decoder vs) \<and>
           length (relayed new_decoder vs) = length vs \<and>
           calls out = [Fetch (upstream_call e b msgs)] \<and>
           ((\<forall>v\<in>set vs. \<forall>x\<in>set v. x < 0x80) \<longrightarrow> res_body (response out) = StreamBody vs)"
proof -
  let ?c = "upstream_call e b msgs"
  have h: "handler e w req = streaming w ?c [Log ''Processing request:'']"
    using post keys body by (rule handler_streaming)
  have p: "pump read 0 new_decoder [] = Some ([] @ relayed new_decoder vs, [])"
    by (rule pump_ends) (use chunks in simp_all)
  have s: "streaming w ?c [Log ''Processing request:''] =
             Some (respond (cors @ stream_headers) 200 (StreamBody (relayed new_decoder vs))
                     [Fetch ?c] [Log ''Processing request:''])"
    using reply p by (simp add: streaming_def)
  have a: "(\<forall>v\<in>set vs. \<forall>x\<in>set v. x < 0x80) \<longrightarrow> relayed new_decoder vs = vs"
    using relayed_ascii[of new_decoder vs] by (simp add: new_decoder_def fresh_def)
  from h s a relayed_length[of new_decoder vs] show ?thesis
    by (simp add: respond_def)
qed

theorem stream_is_relayed_witness:
  "\<exists>out. handler sample_env
            (answering (stream_reply (\<lambda>n. if n = 0 then Chunk [0x68, 0x69]
                                          else if n = 1 then Chunk [0x21] else Done)))
            (post (sample_body\<lparr>stream := JBool True\<rparr>)) = Some out \<and>
     res_status (response out) = 200 \<and>
     res_body (response out) = StreamBody [[0x68, 0x69], [0x21]] \<and>
     calls out = [Fetch (upstream_call sample_env (sample_body\<lparr>stream := JBool True\<rparr>)
                    [JObj [(''role'', JStr ''user''), (''content'', JStr ''hello'')]])]"
proof -
  let ?read = "\<lambda>n::nat. if n = 0 then Chunk [0x68, 0x69] else if n = 1 then Chunk [0x21] else Done"
  let ?vs = "[[0x68, 0x69], [0x21]] :: byte list list"
  let ?b = "sample_body\<lparr>stream := JBool True\<rparr>"
  let ?msgs = "[JObj [(''role'', JStr ''user''), (''content'', JStr ''hello'')]]"
  let ?w = "answering (stream_reply ?read)"
  have 1: "req_method (post ?b) = ''POST''" by (simp add: post_def)
  have 2: "\<not> unset (FIREWORKS_API_KEY sample_env)" by (simp add: sample_env_def unset_def)
  have 3: "\<not> unset (MEM_API_KEY sample_env)" by (simp add: sample_env_def unset_def)
  have 4: "body (post ?b) = Some ?b" by (simp add: post_def)
  have 5: "truthy (model ?b)" by (simp add: sample_body_def)
  have 6: "messages ?b = Some ?msgs" by (simp add: sample_body_def)
  have 7: "truthy (stream ?b)" by simp
  have 8: "fetch ?w (upstream_call sample_env ?b ?msgs) = Inr (stream_reply ?read)"
    by (simp add: answering_def)
  have 9: "ok (stream_reply ?read)" by (simp add: ok_def stream_reply_def)
  have 10: "up_body (stream_reply ?read) = Some ?read" by (simp add: stream_reply_def)
  have 11: "\<forall>i<length ?vs. ?read i = Chunk (?vs ! i)" by (simp add: less_Suc_eq)
  have 12: "?read (length ?vs) = Done" by simp
  have 13: "\<forall>v\<in>set ?vs. \<forall>x\<in>set v. x < 0x80" by simp
  from stream_is_relayed[OF 1 2 3 4 5 6 7 8 9 10 11 12] 13 show ?thesis by blast
qed

end
